theory Spec2Isabelle
  imports Complex_Main
begin

section \<open>Numbers\<close>

text \<open>
  The engine of \<^verbatim>\<open>src/micrograd/engine.py\<close> computes on Python numbers. The field
  \<^verbatim>\<open>data\<close> is annotated \<^verbatim>\<open>float\<close>; a number is modelled by the real it denotes.
  The model follows the code on finite floats and up to rounding: the rounding of doubles,
  infinities, NaN, complex numbers and Python's unbounded \<^verbatim>\<open>int\<close> are not part of
  it. The exceptions that Python's float arithmetic raises are branches of the model:
  \<^verbatim>\<open>x ** p\<close> raises
  \<^verbatim>\<open>ZeroDivisionError\<close> for a zero base and a negative exponent and
  \<^verbatim>\<open>OverflowError\<close> when the result leaves the range of a double,
  \<^verbatim>\<open>math.exp\<close> raises \<^verbatim>\<open>OverflowError\<close> in the same situation, and
  \<^verbatim>\<open>/\<close> raises \<^verbatim>\<open>ZeroDivisionError\<close> for a zero divisor.
\<close>

type_synonym addr = nat

datatype error =
    AssertionError
  | ZeroDivisionError
  | OverflowError
  | RecursionError
  | ComplexResult

text \<open>The largest finite double, \<^verbatim>\<open>sys.float_info.max\<close>.\<close>

definition float_max :: real where
  "float_max = (2 - 2 powi (- 52)) * 2 ^ 1023"

text \<open>
  \<^verbatim>\<open>x ** p\<close> on floats (CPython's \<^verbatim>\<open>float_pow\<close>), for a finite exponent:
  \<^verbatim>\<open>x ** 0\<close> is 1 for every \<^verbatim>\<open>x\<close>; a zero base with a negative exponent
  raises \<^verbatim>\<open>ZeroDivisionError\<close>; otherwise the platform \<^verbatim>\<open>pow\<close> runs and a result
  out of range raises \<^verbatim>\<open>OverflowError\<close>. For a negative base with a fractional
  exponent Python returns a \<^verbatim>\<open>complex\<close> and the caller goes on with it; the model
  has no complex numbers and ends there with the outcome \<open>ComplexResult\<close>, which is
  not a Python exception: it marks the border of what the model follows. For
  \<^verbatim>\<open>int\<close> data Python's power is exact and unbounded; the model takes the data as
  floats.
\<close>

definition py_pow :: "real \<Rightarrow> real \<Rightarrow> error + real" where
  "py_pow x p =
     (if p = 0 then Inr 1
      else if x = 0 then (if p < 0 then Inl ZeroDivisionError else Inr 0)
      else if x < 0 \<and> p \<noteq> of_int \<lfloor>p\<rfloor> then Inl ComplexResult
      else
        (let r = (if p = of_int \<lfloor>p\<rfloor> then x powi \<lfloor>p\<rfloor> else x powr p)
         in if \<bar>r\<bar> > float_max then Inl OverflowError else Inr r))"

definition math_exp :: "real \<Rightarrow> error + real" where
  "math_exp x = (if exp x > float_max then Inl OverflowError else Inr (exp x))"

definition py_truediv :: "real \<Rightarrow> real \<Rightarrow> error + real" where
  "py_truediv x y = (if y = 0 then Inl ZeroDivisionError else Inr (x / y))"


section \<open>Scalar nodes on a heap\<close>

text \<open>
  A \<^verbatim>\<open>Value\<close> object is a cell of a heap; its address is its identity (the class
  defines neither \<^verbatim>\<open>__eq__\<close> nor \<^verbatim>\<open>__hash__\<close>). The closures that the operators
  install as \<^verbatim>\<open>_backward\<close> capture the variables \<^verbatim>\<open>self\<close>, \<^verbatim>\<open>other\<close> and
  \<^verbatim>\<open>out\<close>; a closure is modelled by a constructor carrying what it captured.
\<close>

datatype closure =
    lambda_None
  | add_backward addr addr addr
  | mul_backward addr addr addr
  | pow_backward addr real addr
  | exp_backward addr addr
  | tanh_backward addr addr

record Value =
  data :: real
  grad :: real
  prev :: "addr set"
  op :: "string option"
  backward_closure :: closure

type_synonym heap = "Value list"

text \<open>An operand of a binary operator is a plain number or a node.\<close>

datatype operand = Num real | Node addr

text \<open>\<^verbatim>\<open>Value.__init__\<close>: a new object, allocated at the next free address.\<close>

definition Value_init :: "real \<Rightarrow> addr list \<Rightarrow> string option \<Rightarrow> heap \<Rightarrow> addr \<times> heap" where
  "Value_init d children opn h =
     (length h,
      h @ [\<lparr>data = d, grad = 0, prev = set children, op = opn,
             backward_closure = lambda_None\<rparr>])"

text \<open>\<^verbatim>\<open>out._backward = _backward\<close>\<close>

definition set_backward :: "addr \<Rightarrow> closure \<Rightarrow> heap \<Rightarrow> heap" where
  "set_backward out f h = h[out := (h ! out)\<lparr>backward_closure := f\<rparr>]"

text \<open>\<^verbatim>\<open>other if isinstance(other, Value) else Value(other)\<close>\<close>

fun as_Value :: "operand \<Rightarrow> heap \<Rightarrow> addr \<times> heap" where
  "as_Value (Node b) h = (b, h)"
| "as_Value (Num x) h = Value_init x [] None h"

definition Value_add :: "addr \<Rightarrow> operand \<Rightarrow> heap \<Rightarrow> addr \<times> heap" where
  "Value_add self other0 h =
     (let (other, h1) = as_Value other0 h;
          (out, h2) = Value_init (data (h1 ! self) + data (h1 ! other)) [self, other]
                        (Some ''+'') h1
      in (out, set_backward out (add_backward self other out) h2))"

definition Value_radd :: "addr \<Rightarrow> operand \<Rightarrow> heap \<Rightarrow> addr \<times> heap" where
  "Value_radd self other h = Value_add self other h"

definition Value_mul :: "addr \<Rightarrow> operand \<Rightarrow> heap \<Rightarrow> addr \<times> heap" where
  "Value_mul self other0 h =
     (let (other, h1) = as_Value other0 h;
          (out, h2) = Value_init (data (h1 ! self) * data (h1 ! other)) [self, other]
                        (Some ''*'') h1
      in (out, set_backward out (mul_backward self other out) h2))"

definition Value_rmul :: "addr \<Rightarrow> operand \<Rightarrow> heap \<Rightarrow> addr \<times> heap" where
  "Value_rmul self other h = Value_mul self other h"

definition Value_neg :: "addr \<Rightarrow> heap \<Rightarrow> addr \<times> heap" where
  "Value_neg self h = Value_mul self (Num (- 1)) h"

text \<open>
  \<^verbatim>\<open>Value.__pow__\<close>: the assertion comes first; the forward value is computed before
  the output node is constructed.
\<close>

definition Value_pow :: "addr \<Rightarrow> operand \<Rightarrow> heap \<Rightarrow> (error + addr) \<times> heap" where
  "Value_pow self other h =
     (case other of
        Node b \<Rightarrow> (Inl AssertionError, h)
      | Num p \<Rightarrow>
          (case py_pow (data (h ! self)) p of
             Inl e \<Rightarrow> (Inl e, h)
           | Inr d \<Rightarrow>
               (let (out, h1) = Value_init d [self] (Some ''**'') h
                in (Inr out, set_backward out (pow_backward self p out) h1))))"

text \<open>
  \<^verbatim>\<open>self + (-other)\<close>: the negation of a plain number is Python's own, the negation of
  a node is \<^verbatim>\<open>Value.__neg__\<close>.
\<close>

definition Value_sub :: "addr \<Rightarrow> operand \<Rightarrow> heap \<Rightarrow> addr \<times> heap" where
  "Value_sub self other h =
     (case other of
        Num x \<Rightarrow> Value_add self (Num (- x)) h
      | Node b \<Rightarrow> (let (n, h1) = Value_neg b h in Value_add self (Node n) h1))"

text \<open>\<^verbatim>\<open>other + (-self)\<close> with a plain number on the left dispatches to \<^verbatim>\<open>__radd__\<close>.\<close>

definition Value_rsub :: "addr \<Rightarrow> real \<Rightarrow> heap \<Rightarrow> addr \<times> heap" where
  "Value_rsub self other h =
     (let (n, h1) = Value_neg self h in Value_radd n (Num other) h1)"

definition Value_truediv :: "addr \<Rightarrow> operand \<Rightarrow> heap \<Rightarrow> (error + addr) \<times> heap" where
  "Value_truediv self other0 h =
     (let (other, h1) = as_Value other0 h
      in case Value_pow other (Num (- 1)) h1 of
           (Inl e, h2) \<Rightarrow> (Inl e, h2)
         | (Inr p, h2) \<Rightarrow> (let (out, h3) = Value_mul self (Node p) h2 in (Inr out, h3)))"

definition Value_rtruediv :: "addr \<Rightarrow> real \<Rightarrow> heap \<Rightarrow> (error + addr) \<times> heap" where
  "Value_rtruediv self other h =
     (case Value_pow self (Num (- 1)) h of
        (Inl e, h1) \<Rightarrow> (Inl e, h1)
      | (Inr p, h1) \<Rightarrow> (let (out, h2) = Value_rmul p (Num other) h1 in (Inr out, h2)))"

definition Value_exp :: "addr \<Rightarrow> heap \<Rightarrow> (error + addr) \<times> heap" where
  "Value_exp self h =
     (case math_exp (data (h ! self)) of
        Inl e \<Rightarrow> (Inl e, h)
      | Inr d \<Rightarrow>
          (let (out, h1) = Value_init d [self] (Some ''exp'') h
           in (Inr out, set_backward out (exp_backward self out) h1)))"

text \<open>
  \<^verbatim>\<open>Value.tanh\<close>: \<^verbatim>\<open>(math.exp(2 * self.data) - 1) / (math.exp(2 * self.data) + 1)\<close>,
  the exponential evaluated twice. The quotient is that of the reals: the code's doubles
  round it, and reach 1.0 and -1.0 where the real quotient lies strictly inside. Where
  \<^verbatim>\<open>2 * self.data\<close> itself leaves the range of a double the code goes on with an
  infinity; the model, which has none, is the code's only up to half that range.
\<close>

definition Value_tanh :: "addr \<Rightarrow> heap \<Rightarrow> (error + addr) \<times> heap" where
  "Value_tanh self h =
     (case math_exp (2 * data (h ! self)) of
        Inl e \<Rightarrow> (Inl e, h)
      | Inr e1 \<Rightarrow>
          (case math_exp (2 * data (h ! self)) of
             Inl e \<Rightarrow> (Inl e, h)
           | Inr e2 \<Rightarrow>
               (case py_truediv (e1 - 1) (e2 + 1) of
                  Inl e \<Rightarrow> (Inl e, h)
                | Inr d \<Rightarrow>
                    (let (out, h1) = Value_init d [self] (Some ''tanh'') h
                     in (Inr out, set_backward out (tanh_backward self out) h1)))))"


section \<open>The backward rules\<close>

text \<open>\<^verbatim>\<open>v.grad += x\<close>\<close>

definition add_grad :: "addr \<Rightarrow> real \<Rightarrow> heap \<Rightarrow> heap" where
  "add_grad v x h = h[v := (h ! v)\<lparr>grad := grad (h ! v) + x\<rparr>]"

text \<open>
  Calling a closure. Each augmented assignment reads the heap as the statements before
  it left it.
\<close>

fun call :: "closure \<Rightarrow> heap \<Rightarrow> (error + unit) \<times> heap" where
  "call lambda_None h = (Inr (), h)"
| "call (add_backward self other out) h =
     (let h1 = add_grad self (grad (h ! out)) h;
          h2 = add_grad other (grad (h1 ! out)) h1
      in (Inr (), h2))"
| "call (mul_backward self other out) h =
     (let h1 = add_grad self (data (h ! other) * grad (h ! out)) h;
          h2 = add_grad other (data (h1 ! self) * grad (h1 ! out)) h1
      in (Inr (), h2))"
| "call (pow_backward self other out) h =
     (case py_pow (data (h ! self)) (other - 1) of
        Inl e \<Rightarrow> (Inl e, h)
      | Inr r \<Rightarrow> (Inr (), add_grad self (other * r * grad (h ! out)) h))"
| "call (exp_backward self out) h =
     (Inr (), add_grad self (data (h ! out) * grad (h ! out)) h)"
| "call (tanh_backward self out) h =
     (case py_pow (data (h ! out)) 2 of
        Inl e \<Rightarrow> (Inl e, h)
      | Inr r \<Rightarrow> (Inr (), add_grad self ((1 - r) * grad (h ! out)) h))"


section \<open>The backward driver\<close>

text \<open>A \<^verbatim>\<open>for\<close> loop whose body may raise.\<close>

fun for_each :: "('a \<Rightarrow> 's \<Rightarrow> error + 's) \<Rightarrow> 'a list \<Rightarrow> 's \<Rightarrow> error + 's" where
  "for_each f [] s = Inr s"
| "for_each f (x # xs) s =
     (case f x s of Inl e \<Rightarrow> Inl e | Inr s' \<Rightarrow> for_each f xs s')"

text \<open>
  \<^verbatim>\<open>build_topo\<close>, the nested function of \<^verbatim>\<open>Value.backward\<close>. Its state is the
  pair of the local variables \<^verbatim>\<open>visited\<close> and \<^verbatim>\<open>topo\<close>. Python does not fix the
  order in which a set is iterated: \<open>iter v\<close> is that order for the set of node
  \<open>v\<close>. The recursion is bounded by the interpreter's recursion limit: \<open>limit\<close>
  counts the frames that remain, and running out of them raises
  \<^verbatim>\<open>RecursionError\<close>.
\<close>

fun build_topo ::
  "(addr \<Rightarrow> addr set \<Rightarrow> addr list) \<Rightarrow> heap \<Rightarrow> nat \<Rightarrow> addr \<Rightarrow> addr set \<times> addr list
     \<Rightarrow> error + addr set \<times> addr list" where
  "build_topo iter h 0 v st = Inl RecursionError"
| "build_topo iter h (Suc limit) v (visited, topo) =
     (if v \<notin> visited then
        (case for_each (build_topo iter h limit) (iter v (prev (h ! v)))
                (insert v visited, topo) of
           Inl e \<Rightarrow> Inl e
         | Inr (visited', topo') \<Rightarrow> Inr (visited', topo' @ [v]))
      else Inr (visited, topo))"

text \<open>\<^verbatim>\<open>for node in reversed(topo): node._backward()\<close>, on the list already reversed.\<close>

fun run_backward :: "addr list \<Rightarrow> heap \<Rightarrow> (error + unit) \<times> heap" where
  "run_backward [] h = (Inr (), h)"
| "run_backward (node # rest) h =
     (case call (backward_closure (h ! node)) h of
        (Inl e, h') \<Rightarrow> (Inl e, h')
      | (Inr u, h') \<Rightarrow> run_backward rest h')"

definition Value_backward ::
  "(addr \<Rightarrow> addr set \<Rightarrow> addr list) \<Rightarrow> nat \<Rightarrow> addr \<Rightarrow> heap \<Rightarrow> (error + unit) \<times> heap" where
  "Value_backward iter limit self h =
     (case build_topo iter h limit self ({}, []) of
        Inl e \<Rightarrow> (Inl e, h)
      | Inr (visited, topo) \<Rightarrow>
          run_backward (rev topo) (h[self := (h ! self)\<lparr>grad := 1\<rparr>]))"

text \<open>
  \<^verbatim>\<open>Module.zero_grad\<close> of \<^verbatim>\<open>src/micrograd/nn.py\<close>, over the list that
  \<^verbatim>\<open>parameters()\<close> returns.
\<close>

fun zero_grad :: "addr list \<Rightarrow> heap \<Rightarrow> heap" where
  "zero_grad [] h = h"
| "zero_grad (parameter # rest) h =
     zero_grad rest (h[parameter := (h ! parameter)\<lparr>grad := 0\<rparr>])"


section \<open>The vocabulary of the properties\<close>

text \<open>
  An iteration order gives, for the set object \<^verbatim>\<open>v._prev\<close> of each node \<open>v\<close>, the
  sequence in which a \<^verbatim>\<open>for\<close> loop goes through it: every element, once.
\<close>

definition iter_ok :: "(addr \<Rightarrow> addr set \<Rightarrow> addr list) \<Rightarrow> bool" where
  "iter_ok iter = (\<forall>v S. finite S \<longrightarrow> set (iter v S) = S \<and> distinct (iter v S))"

text \<open>One such order: every set by ascending address.\<close>

definition by_address :: "addr \<Rightarrow> addr set \<Rightarrow> addr list" where
  "by_address v S = sorted_list_of_set S"

text \<open>
  The heaps that the operators build. The children of a node were created before it, and
  a closure captured the node it was installed on as \<^verbatim>\<open>out\<close> and that node's
  children as \<^verbatim>\<open>self\<close> and \<^verbatim>\<open>other\<close>.
\<close>

definition closure_ok :: "addr \<Rightarrow> Value \<Rightarrow> bool" where
  "closure_ok v n =
     (case backward_closure n of
        lambda_None \<Rightarrow> True
      | add_backward self other out \<Rightarrow> out = v \<and> prev n = {self, other}
      | mul_backward self other out \<Rightarrow> out = v \<and> prev n = {self, other}
      | pow_backward self p out \<Rightarrow> out = v \<and> prev n = {self}
      | exp_backward self out \<Rightarrow> out = v \<and> prev n = {self}
      | tanh_backward self out \<Rightarrow> out = v \<and> prev n = {self})"

definition well_formed :: "heap \<Rightarrow> bool" where
  "well_formed h = (\<forall>v < length h. (\<forall>c \<in> prev (h ! v). c < v) \<and> closure_ok v (h ! v))"

text \<open>An operand that is a node is a node of the heap.\<close>

fun operand_ok :: "heap \<Rightarrow> operand \<Rightarrow> bool" where
  "operand_ok h (Num x) = True"
| "operand_ok h (Node b) = (b < length h)"

text \<open>The nodes reachable from a node through \<^verbatim>\<open>_prev\<close>.\<close>

inductive_set reachable :: "heap \<Rightarrow> addr \<Rightarrow> addr set" for h :: heap and r :: addr where
  root: "r \<in> reachable h r"
| child: "v \<in> reachable h r \<Longrightarrow> c \<in> prev (h ! v) \<Longrightarrow> c \<in> reachable h r"

text \<open>Every node of the sequence stands after all of its children.\<close>

definition children_first :: "heap \<Rightarrow> addr list \<Rightarrow> bool" where
  "children_first h topo = (\<forall>i < length topo. prev (h ! (topo ! i)) \<subseteq> set (take i topo))"

text \<open>The invariant of the traversal, and what one call or one loop adds to its state.\<close>

definition topo_inv :: "heap \<Rightarrow> addr set \<Rightarrow> addr list \<Rightarrow> bool" where
  "topo_inv h visited topo = (set topo \<subseteq> visited \<and> distinct topo \<and> children_first h topo)"

definition adds ::
  "heap \<Rightarrow> addr set \<Rightarrow> addr set \<times> addr list \<Rightarrow> addr set \<times> addr list \<Rightarrow> bool" where
  "adds h R st st' =
     (\<exists>new. snd st' = snd st @ new \<and> fst st' = fst st \<union> set new \<and>
            set new = R - set (snd st) \<and> topo_inv h (fst st') (snd st'))"

text \<open>
  The graph below a node is at most \<open>limit\<close> nodes deep: the frames that
  \<^verbatim>\<open>build_topo\<close> needs on it.
\<close>

fun fits :: "heap \<Rightarrow> nat \<Rightarrow> addr \<Rightarrow> bool" where
  "fits h 0 v = False"
| "fits h (Suc limit) v = (\<forall>c \<in> prev (h ! v). fits h limit c)"

text \<open>
  The local gradient rules: what the rule of a node adds to the grad of \<open>x\<close> when it
  is called in the heap \<open>h\<close> and returns.
\<close>

fun pushed :: "closure \<Rightarrow> heap \<Rightarrow> addr \<Rightarrow> real" where
  "pushed lambda_None h x = 0"
| "pushed (add_backward self other out) h x =
     (if x = self then grad (h ! out) else 0) + (if x = other then grad (h ! out) else 0)"
| "pushed (mul_backward self other out) h x =
     (if x = self then data (h ! other) * grad (h ! out) else 0) +
     (if x = other then data (h ! self) * grad (h ! out) else 0)"
| "pushed (pow_backward self other out) h x =
     (if x = self
      then (case py_pow (data (h ! self)) (other - 1) of
              Inl e \<Rightarrow> 0
            | Inr r \<Rightarrow> other * r * grad (h ! out))
      else 0)"
| "pushed (exp_backward self out) h x =
     (if x = self then data (h ! out) * grad (h ! out) else 0)"
| "pushed (tanh_backward self out) h x =
     (if x = self
      then (case py_pow (data (h ! out)) 2 of
              Inl e \<Rightarrow> 0
            | Inr r \<Rightarrow> (1 - r) * grad (h ! out))
      else 0)"

text \<open>No node of the sequence is a child of itself or of a node that follows it.\<close>

fun parents_first :: "heap \<Rightarrow> addr list \<Rightarrow> bool" where
  "parents_first h [] = True"
| "parents_first h (n # rest) =
     ((\<forall>m \<in> set (n # rest). n \<notin> prev (h ! m)) \<and> parents_first h rest)"

text \<open>The rule of a node returns: it depends on the data only.\<close>

definition rule_returns :: "heap \<Rightarrow> addr \<Rightarrow> bool" where
  "rule_returns h n = (fst (call (backward_closure (h ! n)) h) = Inr ())"

text \<open>A heap that only gained cells, and a heap that differs in grad fields only.\<close>

definition extends :: "heap \<Rightarrow> heap \<Rightarrow> bool" where
  "extends h h' = (\<exists>new. h' = h @ new)"

definition same_graph :: "heap \<Rightarrow> heap \<Rightarrow> bool" where
  "same_graph h h' =
     (length h' = length h \<and>
      (\<forall>v. data (h' ! v) = data (h ! v) \<and> prev (h' ! v) = prev (h ! v) \<and>
           op (h' ! v) = op (h ! v) \<and> backward_closure (h' ! v) = backward_closure (h ! v)))"

text \<open>A product of two leaves that hold the same number.\<close>

definition twins :: heap where
  "twins = snd (Value_mul 0 (Node 1) (snd (Value_init 2 [] None (snd (Value_init 2 [] None [])))))"

text \<open>The product of the two equal leaves after its backward pass.\<close>

definition twins_after :: heap where
  "twins_after =
     [\<lparr>data = 2, grad = 2, prev = {}, op = None, backward_closure = lambda_None\<rparr>,
      \<lparr>data = 2, grad = 2, prev = {}, op = None, backward_closure = lambda_None\<rparr>,
      \<lparr>data = 4, grad = 1, prev = {0, 1}, op = Some ''*'',
        backward_closure = mul_backward 0 1 2\<rparr>]"

text \<open>
  The product of the two equal leaves after a second backward pass: the grads of the leaves
  have accumulated.
\<close>

definition twins_twice :: heap where
  "twins_twice =
     [\<lparr>data = 2, grad = 4, prev = {}, op = None, backward_closure = lambda_None\<rparr>,
      \<lparr>data = 2, grad = 4, prev = {}, op = None, backward_closure = lambda_None\<rparr>,
      \<lparr>data = 4, grad = 1, prev = {0, 1}, op = Some ''*'',
        backward_closure = mul_backward 0 1 2\<rparr>]"

text \<open>
  \<^verbatim>\<open>x = Value(3.0); (x * x).backward()\<close>: a leaf that a backward pass has reached.
\<close>

definition square_after :: heap where
  "square_after =
     snd (Value_backward by_address 2 1
            (snd (Value_mul 0 (Node 0) (snd (Value_init 3 [] None [])))))"



section \<open>Numbers: facts\<close>




lemma float_max_ge_one: "1 \<le> float_max"
  by (simp add: float_max_def)

lemma float_max_less: "float_max < 2 ^ 1024"
proof -
  have "(2 - 2 powi (- 52)) * 2 ^ 1023 < (2::real) * 2 ^ 1023"
    by (intro mult_strict_right_mono) simp_all
  also have "\<dots> = 2 ^ 1024" by simp
  finally show ?thesis by (simp add: float_max_def)
qed

lemma exp_2000_overflows: "float_max < exp (2 * 1000 :: real)"
proof -
  have "(2::real) \<le> exp 1" using exp_ge_add_one_self[of "1::real"] by simp
  then have "(2::real) ^ 2000 \<le> exp 1 ^ 2000" by (intro power_mono) simp_all
  also have "\<dots> = exp (of_nat 2000 * 1 :: real)" by (rule exp_of_nat_mult[symmetric])
  also have "\<dots> = exp (2 * 1000)" by simp
  finally have "(2::real) ^ 2000 \<le> exp (2 * 1000)" .
  moreover have "(2::real) ^ 1024 \<le> 2 ^ 2000" by (intro power_increasing) simp_all
  ultimately show ?thesis using float_max_less by linarith
qed

lemma tanh_quotient_bounds:
  fixes e :: real
  assumes "0 < e"
  shows "- 1 \<le> (e - 1) / (e + 1)" "(e - 1) / (e + 1) \<le> 1"
proof -
  have p: "0 < e + 1" using assms by simp
  have "- 1 * (e + 1) \<le> e - 1" using assms by simp
  then show "- 1 \<le> (e - 1) / (e + 1)" using p by (simp add: pos_le_divide_eq)
  have "e - 1 \<le> 1 * (e + 1)" by simp
  then show "(e - 1) / (e + 1) \<le> 1" using p by (simp add: pos_divide_le_eq)
qed

lemma py_pow_square_unit:
  assumes "\<bar>x\<bar> \<le> 1"
  shows "py_pow x 2 = Inr (x\<^sup>2)"
proof -
  have "x\<^sup>2 \<le> 1" using assms by (simp add: abs_square_le_1)
  then have "\<bar>x\<^sup>2\<bar> \<le> float_max" using float_max_ge_one by simp
  then show ?thesis by (auto simp: py_pow_def Let_def)
qed








section \<open>The operators, cell by cell\<close>

lemma Value_init_eq:
  "Value_init d cs opn h =
     (length h, h @ [\<lparr>data = d, grad = 0, prev = set cs, op = opn,
                     backward_closure = lambda_None\<rparr>])"
  by (simp add: Value_init_def)

lemma set_backward_last:
  "set_backward (length h) f (h @ [n]) = h @ [n\<lparr>backward_closure := f\<rparr>]"
  by (simp add: set_backward_def)

lemma set_backward_last2:
  "set_backward (Suc (length h)) f (h @ [m, n]) = h @ [m, n\<lparr>backward_closure := f\<rparr>]"
  using set_backward_last[of "h @ [m]" f n] by simp

lemma Value_add_Node:
  "Value_add self (Node b) h =
     (length h, h @ [\<lparr>data = data (h ! self) + data (h ! b), grad = 0, prev = {self, b},
        op = Some ''+'', backward_closure = add_backward self b (length h)\<rparr>])"
  by (simp add: Value_add_def Value_init_def set_backward_last)

lemma Value_mul_Node:
  "Value_mul self (Node b) h =
     (length h, h @ [\<lparr>data = data (h ! self) * data (h ! b), grad = 0, prev = {self, b},
        op = Some ''*'', backward_closure = mul_backward self b (length h)\<rparr>])"
  by (simp add: Value_mul_def Value_init_def set_backward_last)

lemma Value_add_Num:
  "self < length h \<Longrightarrow> Value_add self (Num x) h =
     (Suc (length h),
      h @ [\<lparr>data = x, grad = 0, prev = {}, op = None, backward_closure = lambda_None\<rparr>,
           \<lparr>data = data (h ! self) + x, grad = 0, prev = {self, length h},
             op = Some ''+'', backward_closure = add_backward self (length h) (Suc (length h))\<rparr>])"
  by (simp add: Value_add_def Value_init_def set_backward_last2 nth_append)

lemma Value_mul_Num:
  "self < length h \<Longrightarrow> Value_mul self (Num x) h =
     (Suc (length h),
      h @ [\<lparr>data = x, grad = 0, prev = {}, op = None, backward_closure = lambda_None\<rparr>,
           \<lparr>data = data (h ! self) * x, grad = 0, prev = {self, length h},
             op = Some ''*'', backward_closure = mul_backward self (length h) (Suc (length h))\<rparr>])"
  by (simp add: Value_mul_def Value_init_def set_backward_last2 nth_append)




section \<open>What the operations leave alone\<close>

text \<open>Every operator only appends cells.\<close>

lemma extends_refl: "extends h h" by (simp add: extends_def)

lemma extends_trans: "extends h h1 \<Longrightarrow> extends h1 h2 \<Longrightarrow> extends h h2" by (auto simp: extends_def)

lemma extends_nth: "extends h h' \<Longrightarrow> v < length h \<Longrightarrow> h' ! v = h ! v" by (auto simp: extends_def nth_append)

lemma extends_Value_init: "extends h (snd (Value_init d cs opn h))" by (simp add: Value_init_def extends_def)

lemma extends_as_Value: "extends h (snd (as_Value other h))" by (cases other) (simp_all add: extends_refl extends_Value_init)

lemma extends_fresh: "extends h (set_backward (length h) f (h @ [n]))"
  by (simp add: set_backward_last extends_def)

lemma extends_Value_add: "extends h (snd (Value_add self other h))"
proof -
  obtain b h1 where a: "as_Value other h = (b, h1)" by (cases "as_Value other h")
  then have "extends h h1" using extends_as_Value[of h other] by simp
  moreover have "extends h1 (snd (Value_add self other h))"
    using a by (simp add: Value_add_def Value_init_def extends_fresh)
  ultimately show ?thesis by (rule extends_trans)
qed

lemma extends_Value_mul: "extends h (snd (Value_mul self other h))"
proof -
  obtain b h1 where a: "as_Value other h = (b, h1)" by (cases "as_Value other h")
  then have "extends h h1" using extends_as_Value[of h other] by simp
  moreover have "extends h1 (snd (Value_mul self other h))"
    using a by (simp add: Value_mul_def Value_init_def extends_fresh)
  ultimately show ?thesis by (rule extends_trans)
qed

lemma extends_Value_neg: "extends h (snd (Value_neg self h))"
  by (simp add: Value_neg_def extends_Value_mul)

lemma extends_Value_pow: "extends h (snd (Value_pow self other h))"
  by (cases other)
     (auto simp: Value_pow_def Value_init_def extends_fresh extends_refl split: sum.splits)

lemma extends_Value_sub: "extends h (snd (Value_sub self other h))"
proof (cases other)
  case (Num x)
  then show ?thesis by (simp add: Value_sub_def extends_Value_add)
next
  case (Node b)
  obtain n h1 where n: "Value_neg b h = (n, h1)" by (cases "Value_neg b h")
  then have "extends h h1" using extends_Value_neg[of h b] by simp
  moreover have "extends h1 (snd (Value_add self (Node n) h1))" by (rule extends_Value_add)
  ultimately show ?thesis using Node n by (auto simp: Value_sub_def intro: extends_trans)
qed

lemma extends_Value_rsub: "extends h (snd (Value_rsub self other h))"
proof -
  obtain n h1 where n: "Value_neg self h = (n, h1)" by (cases "Value_neg self h")
  then have "extends h h1" using extends_Value_neg[of h self] by simp
  moreover have "extends h1 (snd (Value_add n (Num other) h1))" by (rule extends_Value_add)
  ultimately show ?thesis using n by (auto simp: Value_rsub_def Value_radd_def intro: extends_trans)
qed

lemma extends_Value_truediv: "extends h (snd (Value_truediv self other h))"
proof -
  obtain b h1 where a: "as_Value other h = (b, h1)" by (cases "as_Value other h")
  then have 1: "extends h h1" using extends_as_Value[of h other] by simp
  obtain r h2 where p: "Value_pow b (Num (- 1)) h1 = (r, h2)" by (cases "Value_pow b (Num (- 1)) h1")
  then have 2: "extends h1 h2" using extends_Value_pow[of h1 b "Num (- 1)"] by simp
  show ?thesis
  proof (cases r)
    case (Inl e)
    then show ?thesis using a p 1 2 by (auto simp: Value_truediv_def intro: extends_trans)
  next
    case (Inr q)
    have "extends h2 (snd (Value_mul self (Node q) h2))" by (rule extends_Value_mul)
    then have "extends h (snd (Value_mul self (Node q) h2))" using 1 2 by (blast intro: extends_trans)
    then show ?thesis using a p Inr by (simp add: Value_truediv_def case_prod_beta)
  qed
qed

lemma extends_Value_rtruediv: "extends h (snd (Value_rtruediv self other h))"
proof -
  obtain r h1 where p: "Value_pow self (Num (- 1)) h = (r, h1)" by (cases "Value_pow self (Num (- 1)) h")
  then have 1: "extends h h1" using extends_Value_pow[of h self "Num (- 1)"] by simp
  show ?thesis
  proof (cases r)
    case (Inl e)
    then show ?thesis using p 1 by (auto simp: Value_rtruediv_def)
  next
    case (Inr q)
    have "extends h1 (snd (Value_mul q (Num other) h1))" by (rule extends_Value_mul)
    then have "extends h (snd (Value_mul q (Num other) h1))" using 1 by (blast intro: extends_trans)
    then show ?thesis using p Inr by (simp add: Value_rtruediv_def Value_rmul_def case_prod_beta)
  qed
qed

lemma extends_Value_exp: "extends h (snd (Value_exp self h))"
  by (auto simp: Value_exp_def Value_init_def extends_fresh extends_refl split: sum.splits)

lemma extends_Value_tanh: "extends h (snd (Value_tanh self h))"
  by (auto simp: Value_tanh_def Value_init_def extends_fresh extends_refl split: sum.splits)

text \<open>The backward pass writes grad fields only.\<close>

lemma add_grad_length [simp]: "length (add_grad a x h) = length h"
  by (simp add: add_grad_def)

lemma add_grad_nth:
  "add_grad a x h ! v = (if v = a \<and> a < length h then (h ! v)\<lparr>grad := grad (h ! v) + x\<rparr> else h ! v)"
  by (cases "a < length h") (simp_all add: add_grad_def nth_list_update not_less list_update_beyond)

lemma add_grad_data [simp]: "data (add_grad a x h ! v) = data (h ! v)"
  by (simp add: add_grad_nth)

lemma add_grad_prev [simp]: "prev (add_grad a x h ! v) = prev (h ! v)"
  by (simp add: add_grad_nth)

lemma add_grad_op [simp]: "op (add_grad a x h ! v) = op (h ! v)"
  by (simp add: add_grad_nth)

lemma add_grad_closure [simp]: "backward_closure (add_grad a x h ! v) = backward_closure (h ! v)"
  by (simp add: add_grad_nth)

lemma same_graph_refl: "same_graph h h" by (simp add: same_graph_def)

lemma same_graph_trans: "same_graph h h1 \<Longrightarrow> same_graph h1 h2 \<Longrightarrow> same_graph h h2"
  by (simp add: same_graph_def)

lemma same_graph_add_grad: "same_graph h (add_grad a x h)" by (simp add: same_graph_def)

lemma same_graph_call: "same_graph h (snd (call c h))"
  by (cases c) (auto simp: Let_def same_graph_refl same_graph_add_grad split: sum.splits
        intro: same_graph_trans[OF same_graph_add_grad same_graph_add_grad])

lemma same_graph_run_backward: "same_graph h (snd (run_backward ns h))"
proof (induction ns arbitrary: h)
  case Nil
  show ?case by (simp add: same_graph_refl)
next
  case (Cons n ns)
  obtain r h1 where c: "call (backward_closure (h ! n)) h = (r, h1)"
    by (cases "call (backward_closure (h ! n)) h")
  then have 1: "same_graph h h1" using same_graph_call[of h "backward_closure (h ! n)"] by simp
  show ?case
  proof (cases r)
    case (Inl e)
    then show ?thesis using c 1 by simp
  next
    case (Inr u)
    then show ?thesis using c 1 Cons.IH[of h1] by (auto intro: same_graph_trans)
  qed
qed

lemma same_graph_set_grad: "same_graph h (h[a := (h ! a)\<lparr>grad := g\<rparr>])"
  by (cases "a < length h") (simp_all add: same_graph_def nth_list_update not_less list_update_beyond)

lemma same_graph_Value_backward: "same_graph h (snd (Value_backward iter limit self h))"
  by (auto simp: Value_backward_def same_graph_refl split: sum.splits prod.splits
      intro: same_graph_trans[OF same_graph_set_grad same_graph_run_backward])

lemma same_graph_zero_grad: "same_graph h (zero_grad ps h)"
  by (induction ps arbitrary: h)
     (auto simp: same_graph_refl intro: same_graph_trans[OF same_graph_set_grad])


section \<open>The traversal\<close>

lemma reachable_trans:
  assumes "u \<in> reachable h v" "v \<in> reachable h r"
  shows "u \<in> reachable h r"
  using assms(1)
proof (induction rule: reachable.induct)
  case root
  show ?case by (rule assms(2))
next
  case (child w c)
  show ?case by (rule reachable.child[OF child.IH child.hyps(2)])
qed

lemma reachable_unfold:
  "reachable h v = insert v (\<Union>c \<in> prev (h ! v). reachable h c)"
proof (intro set_eqI iffI)
  fix u assume "u \<in> reachable h v"
  then show "u \<in> insert v (\<Union>c \<in> prev (h ! v). reachable h c)"
  proof (induction rule: reachable.induct)
    case root
    show ?case by simp
  next
    case (child w c)
    from child.IH consider "w = v" | c' where "c' \<in> prev (h ! v)" "w \<in> reachable h c'" by auto
    then show ?case
    proof cases
      case 1
      have "c \<in> reachable h c" by (rule reachable.root)
      then show ?thesis using child.hyps(2) 1 by blast
    next
      case 2
      have "c \<in> reachable h c'" by (rule reachable.child[OF 2(2) child.hyps(2)])
      then show ?thesis using 2(1) by blast
    qed
  qed
next
  fix u assume "u \<in> insert v (\<Union>c \<in> prev (h ! v). reachable h c)"
  then consider "u = v" | c where "c \<in> prev (h ! v)" "u \<in> reachable h c" by auto
  then show "u \<in> reachable h v"
  proof cases
    case 1
    then show ?thesis by (simp add: reachable.root)
  next
    case 2
    have "c \<in> reachable h v" by (rule reachable.child[OF reachable.root 2(1)])
    with 2(2) show ?thesis by (rule reachable_trans)
  qed
qed

lemma well_formed_child:
  "well_formed h \<Longrightarrow> v < length h \<Longrightarrow> c \<in> prev (h ! v) \<Longrightarrow> c < v"
  unfolding well_formed_def by blast

lemma reachable_below:
  assumes "well_formed h" "u \<in> reachable h v" "v < length h"
  shows "u \<le> v \<and> u < length h"
  using assms(2)
proof (induction rule: reachable.induct)
  case root
  show ?case using assms(3) by simp
next
  case (child w c)
  then have "w < length h" by simp
  then have "c < w" using assms(1) child.hyps(2) by (blast dest: well_formed_child)
  with child.IH show ?case by simp
qed

lemma well_formed_finite_prev:
  assumes "well_formed h" "v < length h"
  shows "finite (prev (h ! v))"
proof -
  have "prev (h ! v) \<subseteq> {..<v}"
  proof
    fix c assume "c \<in> prev (h ! v)"
    then have "c < v" by (rule well_formed_child[OF assms])
    then show "c \<in> {..<v}" by simp
  qed
  then show ?thesis by (rule finite_subset) simp
qed

lemma children_first_closed:
  assumes "children_first h topo" "u \<in> reachable h v" "v \<in> set topo"
  shows "u \<in> set topo"
  using assms(2)
proof (induction rule: reachable.induct)
  case root
  show ?case by (rule assms(3))
next
  case (child w c)
  then obtain i where i: "i < length topo" "topo ! i = w" by (auto simp: in_set_conv_nth)
  then have "prev (h ! w) \<subseteq> set (take i topo)"
    using assms(1) unfolding children_first_def by blast
  with child.hyps(2) have "c \<in> set (take i topo)" by blast
  then show ?case by (rule in_set_takeD)
qed

lemma children_first_append:
  assumes "children_first h topo" "prev (h ! v) \<subseteq> set topo"
  shows "children_first h (topo @ [v])"
  unfolding children_first_def
proof (intro allI impI)
  fix i assume "i < length (topo @ [v])"
  then consider "i < length topo" | "i = length topo" by fastforce
  then show "prev (h ! ((topo @ [v]) ! i)) \<subseteq> set (take i (topo @ [v]))"
  proof cases
    case 1
    then show ?thesis using assms(1) by (simp add: children_first_def nth_append)
  next
    case 2
    then show ?thesis using assms(2) by simp
  qed
qed

lemma adds_gray:
  assumes "adds h R (vis, topo) (vis', topo')" "\<forall>u \<in> R. u < b" "\<forall>u \<in> vis - set topo. b \<le> u"
  shows "vis' - set topo' = vis - set topo"
proof -
  from assms(1) obtain new where n: "topo' = topo @ new" "vis' = vis \<union> set new"
    "set new = R - set topo" by (auto simp: adds_def)
  have "u \<notin> vis - set topo" if "u \<in> set new" for u
  proof
    assume g: "u \<in> vis - set topo"
    have "u < b" using that n(3) assms(2) by blast
    moreover have "b \<le> u" using g assms(3) by blast
    ultimately show False by simp
  qed
  then have "set new \<inter> (vis - set topo) = {}" by blast
  then show ?thesis unfolding n(1,2) by auto
qed

lemma for_each_adds:
  assumes step: "\<And>c vis topo vis' topo'. f c (vis, topo) = Inr (vis', topo') \<Longrightarrow> c < b \<Longrightarrow>
            c < length h \<Longrightarrow> topo_inv h vis topo \<Longrightarrow> \<forall>u \<in> vis - set topo. c < u \<Longrightarrow>
            adds h (reachable h c) (vis, topo) (vis', topo')"
    and wf: "well_formed h"
  shows "for_each f cs (vis, topo) = Inr (vis', topo') \<Longrightarrow> \<forall>c \<in> set cs. c < b \<and> c < length h \<Longrightarrow>
         topo_inv h vis topo \<Longrightarrow> \<forall>u \<in> vis - set topo. b \<le> u \<Longrightarrow>
         adds h (\<Union>c \<in> set cs. reachable h c) (vis, topo) (vis', topo')"
proof (induction cs arbitrary: vis topo)
  case Nil
  then show ?case by (simp add: adds_def)
next
  case (Cons c cs)
  from Cons.prems(1) obtain vis1 topo1 where
    1: "f c (vis, topo) = Inr (vis1, topo1)" and
    2: "for_each f cs (vis1, topo1) = Inr (vis', topo')"
    by (auto split: sum.splits)
  have c: "c < b" "c < length h" using Cons.prems(2) by auto
  have "\<forall>u \<in> vis - set topo. c < u"
  proof
    fix u assume "u \<in> vis - set topo"
    then have "b \<le> u" using Cons.prems(4) by blast
    then show "c < u" using c(1) by simp
  qed
  then have a1: "adds h (reachable h c) (vis, topo) (vis1, topo1)"
    using step[OF 1 c Cons.prems(3)] by simp
  have below: "\<forall>u \<in> reachable h c. u < b"
    using reachable_below[OF wf _ c(2)] c(1) by fastforce
  have gray: "vis1 - set topo1 = vis - set topo"
    by (rule adds_gray[OF a1 below Cons.prems(4)])
  have inv1: "topo_inv h vis1 topo1" using a1 by (auto simp: adds_def)
  have a2: "adds h (\<Union>c \<in> set cs. reachable h c) (vis1, topo1) (vis', topo')"
    using Cons.IH[OF 2 _ inv1] Cons.prems(2,4) gray by simp
  from a1 obtain new1 where n1: "topo1 = topo @ new1" "vis1 = vis \<union> set new1"
    "set new1 = reachable h c - set topo" by (auto simp: adds_def)
  from a2 obtain new2 where n2: "topo' = topo1 @ new2" "vis' = vis1 \<union> set new2"
    "set new2 = (\<Union>c \<in> set cs. reachable h c) - set topo1" "topo_inv h vis' topo'"
    by (auto simp: adds_def)
  have "topo' = topo @ (new1 @ new2)" using n1(1) n2(1) by simp
  moreover have "vis' = vis \<union> set (new1 @ new2)" using n1(2) n2(2) by auto
  moreover have "set (new1 @ new2) = (\<Union>c \<in> set (c # cs). reachable h c) - set topo"
    using n1(1,3) n2(3) by auto
  ultimately show ?case using n2(4) unfolding adds_def
    by (intro exI[of _ "new1 @ new2"]) simp
qed

lemma build_topo_adds:
  assumes wf: "well_formed h" and it: "iter_ok iter"
  shows "build_topo iter h limit v (vis, topo) = Inr (vis', topo') \<Longrightarrow> v < length h \<Longrightarrow>
         topo_inv h vis topo \<Longrightarrow> \<forall>u \<in> vis - set topo. v < u \<Longrightarrow>
         adds h (reachable h v) (vis, topo) (vis', topo')"
proof (induction limit arbitrary: v vis topo vis' topo')
  case 0
  then show ?case by simp
next
  case (Suc limit)
  show ?case
  proof (cases "v \<in> vis")
    case True
    then have same: "vis' = vis" "topo' = topo" using Suc.prems(1) by auto
    have "v \<in> set topo" using True Suc.prems(4) by blast
    then have "reachable h v \<subseteq> set topo"
      using Suc.prems(3) children_first_closed by (auto simp: topo_inv_def)
    then show ?thesis using same Suc.prems(3) by (auto simp: adds_def)
  next
    case False
    let ?cs = "iter v (prev (h ! v))"
    from False Suc.prems(1) obtain vis1 topo1 where
      loop: "for_each (build_topo iter h limit) ?cs (insert v vis, topo) = Inr (vis1, topo1)"
      and res: "vis' = vis1" "topo' = topo1 @ [v]"
      by (auto split: sum.splits)
    have fin: "finite (prev (h ! v))" by (rule well_formed_finite_prev[OF wf Suc.prems(2)])
    then have cs: "set ?cs = prev (h ! v)" using it by (simp add: iter_ok_def)
    have below: "\<forall>c \<in> set ?cs. c < v \<and> c < length h"
      using cs well_formed_child[OF wf Suc.prems(2)] Suc.prems(2) by fastforce
    have inv0: "topo_inv h (insert v vis) topo" using Suc.prems(3) by (auto simp: topo_inv_def)
    have vtopo: "v \<notin> set topo" using False Suc.prems(3) by (auto simp: topo_inv_def)
    have gray0: "\<forall>u \<in> insert v vis - set topo. v \<le> u"
    proof
      fix u assume "u \<in> insert v vis - set topo"
      then consider "u = v" | "u \<in> vis - set topo" by blast
      then show "v \<le> u"
      proof cases
        case 1
        then show ?thesis by simp
      next
        case 2
        then have "v < u" using Suc.prems(4) by blast
        then show ?thesis by simp
      qed
    qed
    have a: "adds h (\<Union>c \<in> set ?cs. reachable h c) (insert v vis, topo) (vis1, topo1)"
      by (rule for_each_adds[where b = v and f = "build_topo iter h limit", OF Suc.IH wf loop below inv0 gray0])
    then obtain new1 where n1: "topo1 = topo @ new1" "vis1 = insert v vis \<union> set new1"
      "set new1 = (\<Union>c \<in> prev (h ! v). reachable h c) - set topo" "topo_inv h vis1 topo1"
      using cs by (auto simp: adds_def)
    have small: "\<forall>u \<in> set new1. u < v"
    proof
      fix u assume "u \<in> set new1"
      then obtain c where c: "c \<in> prev (h ! v)" "u \<in> reachable h c" using n1(3) by auto
      have "c < v" "c < length h" using c(1) below cs by auto
      then show "u < v" using reachable_below[OF wf c(2)] by simp
    qed
    have kids: "prev (h ! v) \<subseteq> set topo1"
    proof
      fix c assume "c \<in> prev (h ! v)"
      moreover have "c \<in> reachable h c" by (rule reachable.root)
      ultimately show "c \<in> set topo1" using n1(1,3) by auto
    qed
    have "topo' = topo @ (new1 @ [v])" using res(2) n1(1) by simp
    moreover have "vis' = vis \<union> set (new1 @ [v])" using res(1) n1(2) by auto
    moreover have "set (new1 @ [v]) = reachable h v - set topo"
      using n1(3) vtopo reachable_unfold[of h v] by auto
    moreover have "topo_inv h vis' topo'"
      using n1(4) n1(1,2) res small vtopo kids children_first_append[of h topo1 v]
      by (auto simp: topo_inv_def)
    ultimately show ?thesis unfolding adds_def
      by (intro exI[of _ "new1 @ [v]"]) auto
  qed
qed

lemma build_topo_correct:
  assumes "well_formed h" "iter_ok iter" "r < length h"
    "build_topo iter h limit r ({}, []) = Inr (visited, topo)"
  shows "visited = reachable h r \<and> set topo = reachable h r \<and> distinct topo \<and>
         children_first h topo"
proof -
  have "topo_inv h {} []" by (simp add: topo_inv_def children_first_def)
  then have "adds h (reachable h r) ({}, []) (visited, topo)"
    using build_topo_adds[OF assms(1,2,4,3)] by simp
  then show ?thesis by (auto simp: adds_def topo_inv_def)
qed


text \<open>Enough frames: a node at address v needs at most v + 1 of them.\<close>

lemma for_each_succeeds:
  assumes "\<And>c s. c \<in> set cs \<Longrightarrow> \<exists>s'. f c s = Inr s'"
  shows "\<exists>s'. for_each f cs s = Inr s'"
  using assms
proof (induction cs arbitrary: s)
  case Nil
  show ?case by simp
next
  case (Cons c cs)
  then obtain s1 where "f c s = Inr s1" by fastforce
  moreover obtain s2 where "for_each f cs s1 = Inr s2" using Cons by fastforce
  ultimately show ?case by simp
qed

lemma fits_mono: "fits h d v \<Longrightarrow> d \<le> d' \<Longrightarrow> fits h d' v"
proof (induction d arbitrary: v d')
  case 0
  then show ?case by simp
next
  case (Suc d)
  then obtain e where e: "d' = Suc e" "d \<le> e" by (cases d') auto
  have "fits h e c" if "c \<in> prev (h ! v)" for c
    using Suc.IH[of c e] Suc.prems(1) e(2) that by simp
  then show ?case using e(1) by simp
qed

lemma well_formed_fits:
  assumes "well_formed h"
  shows "v < length h \<Longrightarrow> v < limit \<Longrightarrow> fits h limit v"
proof (induction limit arbitrary: v)
  case 0
  then show ?case by simp
next
  case (Suc limit)
  have "fits h limit c" if "c \<in> prev (h ! v)" for c
  proof -
    have "c < v" by (rule well_formed_child[OF assms Suc.prems(1) that])
    then show ?thesis using Suc.IH[of c] Suc.prems by simp
  qed
  then show ?case by simp
qed

lemma build_topo_fits:
  assumes wf: "well_formed h" and it: "iter_ok iter"
  shows "v < length h \<Longrightarrow> fits h limit v \<Longrightarrow> \<exists>st'. build_topo iter h limit v st = Inr st'"
proof (induction limit arbitrary: v st)
  case 0
  then show ?case by simp
next
  case (Suc limit)
  obtain vis topo where st: "st = (vis, topo)" by (cases st)
  have fin: "finite (prev (h ! v))" by (rule well_formed_finite_prev[OF wf Suc.prems(1)])
  then have cs: "set (iter v (prev (h ! v))) = prev (h ! v)" using it by (simp add: iter_ok_def)
  have "\<exists>s'. build_topo iter h limit c s = Inr s'" if "c \<in> set (iter v (prev (h ! v)))" for c s
  proof -
    have c: "c \<in> prev (h ! v)" using that cs by simp
    then have "c < v" by (rule well_formed_child[OF wf Suc.prems(1)])
    moreover have "fits h limit c" using Suc.prems(2) c by simp
    ultimately show ?thesis using Suc.IH[of c s] Suc.prems(1) by simp
  qed
  then obtain s' where
    "for_each (build_topo iter h limit) (iter v (prev (h ! v))) (insert v vis, topo) = Inr s'"
    using for_each_succeeds[of "iter v (prev (h ! v))" "build_topo iter h limit"] by blast
  then show ?case using st by (cases s') auto
qed

lemma iter_ok_sorted: "iter_ok by_address"
  by (simp add: iter_ok_def by_address_def)

text \<open>The operators keep the heap well formed.\<close>

lemma well_formed_Nil: "well_formed []"
  by (simp add: well_formed_def)

lemma well_formed_snoc:
  assumes "well_formed h" "\<forall>c \<in> prev n. c < length h" "closure_ok (length h) n"
  shows "well_formed (h @ [n])"
  unfolding well_formed_def
proof (intro allI impI)
  fix v assume "v < length (h @ [n])"
  then consider "v < length h" | "v = length h" by fastforce
  then show "(\<forall>c \<in> prev ((h @ [n]) ! v). c < v) \<and> closure_ok v ((h @ [n]) ! v)"
  proof cases
    case 1
    then show ?thesis using assms(1) by (simp add: well_formed_def nth_append)
  next
    case 2
    then show ?thesis using assms(2,3) by simp
  qed
qed

lemma well_formed_Value_init:
  "well_formed h \<Longrightarrow> well_formed (snd (Value_init d [] opn h))"
  by (simp add: Value_init_def well_formed_snoc closure_ok_def)

lemma well_formed_add_Node:
  "well_formed h \<Longrightarrow> self < length h \<Longrightarrow> b < length h \<Longrightarrow>
   well_formed (snd (Value_add self (Node b) h))"
  by (simp add: Value_add_Node well_formed_snoc closure_ok_def)

lemma well_formed_mul_Node:
  "well_formed h \<Longrightarrow> self < length h \<Longrightarrow> b < length h \<Longrightarrow>
   well_formed (snd (Value_mul self (Node b) h))"
  by (simp add: Value_mul_Node well_formed_snoc closure_ok_def)


section \<open>The backward pass\<close>

lemma closure_ok_cong:
  "backward_closure n' = backward_closure n \<Longrightarrow> prev n' = prev n \<Longrightarrow>
   closure_ok v n' = closure_ok v n"
  by (cases "backward_closure n") (simp_all add: closure_ok_def)

lemma same_graph_well_formed:
  assumes "same_graph h h'" "well_formed h"
  shows "well_formed h'"
  unfolding well_formed_def
proof (intro allI impI)
  fix v assume "v < length h'"
  then have v: "v < length h" using assms(1) by (simp add: same_graph_def)
  have pv: "prev (h' ! v) = prev (h ! v)" using assms(1) by (simp add: same_graph_def)
  have cl: "backward_closure (h' ! v) = backward_closure (h ! v)"
    using assms(1) by (simp add: same_graph_def)
  have "closure_ok v (h' ! v) = closure_ok v (h ! v)" by (rule closure_ok_cong[OF cl pv])
  then show "(\<forall>c \<in> prev (h' ! v). c < v) \<and> closure_ok v (h' ! v)"
    using assms(2) v pv unfolding well_formed_def by simp
qed

lemma same_graph_parents_first:
  assumes "same_graph h h'"
  shows "parents_first h ns \<Longrightarrow> parents_first h' ns"
proof -
  have pv: "prev (h' ! m) = prev (h ! m)" for m using assms by (simp add: same_graph_def)
  show "parents_first h ns \<Longrightarrow> parents_first h' ns"
    by (induction ns) (simp_all add: pv)
qed

lemma add_grad_grad:
  "a < length h \<Longrightarrow>
   grad (add_grad a g h ! x) = grad (h ! x) + (if x = a then g else 0)"
  by (simp add: add_grad_nth)

text \<open>One call adds to each grad what the rule pushes there.\<close>

lemma call_pushed:
  assumes wf: "well_formed h" and n: "n < length h"
    and c: "call (backward_closure (h ! n)) h = (Inr (), h')"
  shows "grad (h' ! x) = grad (h ! x) + pushed (backward_closure (h ! n)) h x"
proof -
  have ok: "closure_ok n (h ! n)" and kids: "\<forall>c \<in> prev (h ! n). c < n"
    using wf n by (auto simp: well_formed_def)
  show ?thesis
  proof (cases "backward_closure (h ! n)")
    case lambda_None
    then show ?thesis using c by simp
  next
    case (add_backward s t out)
    then have o: "out = n" "prev (h ! n) = {s, t}" using ok by (simp_all add: closure_ok_def)
    then have lt: "s < n" "t < n" using kids by auto
    then have len: "s < length h" "t < length h" using n by auto
    have h': "h' = add_grad t (grad (add_grad s (grad (h ! n)) h ! n)) (add_grad s (grad (h ! n)) h)"
      using c add_backward o(1) by (simp add: Let_def)
    show ?thesis unfolding h' add_backward o(1) using lt len
      by (simp add: add_grad_grad)
  next
    case (mul_backward s t out)
    then have o: "out = n" "prev (h ! n) = {s, t}" using ok by (simp_all add: closure_ok_def)
    then have lt: "s < n" "t < n" using kids by auto
    then have len: "s < length h" "t < length h" using n by auto
    have h': "h' = add_grad t (data (add_grad s (data (h ! t) * grad (h ! n)) h ! s) *
                     grad (add_grad s (data (h ! t) * grad (h ! n)) h ! n))
                   (add_grad s (data (h ! t) * grad (h ! n)) h)"
      using c mul_backward o(1) by (simp add: Let_def)
    show ?thesis unfolding h' mul_backward o(1) using lt len
      by (simp add: add_grad_grad)
  next
    case (pow_backward s p out)
    then have o: "out = n" "prev (h ! n) = {s}" using ok by (simp_all add: closure_ok_def)
    then have lt: "s < n" using kids by auto
    then have len: "s < length h" using n by auto
    show ?thesis using c pow_backward o(1) lt len
      by (auto simp: add_grad_grad split: sum.splits)
  next
    case (exp_backward s out)
    then have o: "out = n" "prev (h ! n) = {s}" using ok by (simp_all add: closure_ok_def)
    then have lt: "s < n" using kids by auto
    then have len: "s < length h" using n by auto
    show ?thesis using c exp_backward o(1) lt len
      by (auto simp: add_grad_grad)
  next
    case (tanh_backward s out)
    then have o: "out = n" "prev (h ! n) = {s}" using ok by (simp_all add: closure_ok_def)
    then have lt: "s < n" using kids by auto
    then have len: "s < length h" using n by auto
    show ?thesis using c tanh_backward o(1) lt len
      by (auto simp: add_grad_grad split: sum.splits)
  qed
qed

text \<open>A rule pushes to the children of its node only.\<close>

lemma pushed_outside:
  assumes "closure_ok n (h ! n)" "x \<notin> prev (h ! n)"
  shows "pushed (backward_closure (h ! n)) h2 x = 0"
  using assms by (cases "backward_closure (h ! n)") (auto simp: closure_ok_def)

text \<open>What a rule pushes depends on the data and on the grad of its own node.\<close>

lemma pushed_cong:
  assumes "closure_ok n (h ! n)" "\<forall>v. data (h2 ! v) = data (h1 ! v)" "grad (h2 ! n) = grad (h1 ! n)"
  shows "pushed (backward_closure (h ! n)) h2 x = pushed (backward_closure (h ! n)) h1 x"
  using assms by (cases "backward_closure (h ! n)") (auto simp: closure_ok_def split: sum.splits)

lemma run_backward_pushed:
  assumes "well_formed h" "\<forall>n \<in> set ns. n < length h" "parents_first h ns"
    "run_backward ns h = (Inr (), h')"
  shows "grad (h' ! x) = grad (h ! x) + (\<Sum>n \<leftarrow> ns. pushed (backward_closure (h ! n)) h' x)"
  using assms
proof (induction ns arbitrary: h x)
  case Nil
  then show ?case by simp
next
  case (Cons n ns)
  let ?c = "backward_closure (h ! n)"
  obtain r h1 where c0: "call ?c h = (r, h1)" by (cases "call ?c h")
  with Cons.prems(4) have c: "call ?c h = (Inr (), h1)" and run: "run_backward ns h1 = (Inr (), h')"
    by (auto split: sum.splits)
  have n: "n < length h" using Cons.prems(2) by simp
  have ok: "closure_ok n (h ! n)" using Cons.prems(1) n by (simp add: well_formed_def)
  have sg: "same_graph h h1" using same_graph_call[of h ?c] c by simp
  have sg': "same_graph h1 h'" using same_graph_run_backward[of h1 ns] run by simp
  have wf1: "well_formed h1" by (rule same_graph_well_formed[OF sg Cons.prems(1)])
  have len1: "\<forall>m \<in> set ns. m < length h1" using Cons.prems(2) sg by (simp add: same_graph_def)
  have pf1: "parents_first h1 ns"
    using same_graph_parents_first[OF sg] Cons.prems(3) by simp
  have IH: "grad (h' ! z) = grad (h1 ! z) + (\<Sum>m \<leftarrow> ns. pushed (backward_closure (h1 ! m)) h' z)" for z
    by (rule Cons.IH[OF wf1 len1 pf1 run])
  have cl: "backward_closure (h1 ! m) = backward_closure (h ! m)" for m
    using sg by (simp add: same_graph_def)
  have pv: "prev (h1 ! m) = prev (h ! m)" for m
    using sg by (simp add: same_graph_def)
  have first: "grad (h1 ! z) = grad (h ! z) + pushed ?c h z" for z
    by (rule call_pushed[OF Cons.prems(1) n c])
  have self0: "pushed ?c h n = 0"
    using pushed_outside[OF ok] Cons.prems(3) by simp
  have later0: "pushed (backward_closure (h1 ! m)) h' n = 0" if "m \<in> set ns" for m
  proof -
    have m: "m < length h" using that Cons.prems(2) by simp
    have "closure_ok m (h ! m)" using Cons.prems(1) m by (simp add: well_formed_def)
    moreover have "n \<notin> prev (h ! m)" using Cons.prems(3) that by simp
    ultimately show ?thesis unfolding cl by (rule pushed_outside)
  qed
  have "(\<Sum>m \<leftarrow> ns. pushed (backward_closure (h1 ! m)) h' n) = 0"
    using later0 by (simp cong: map_cong)
  then have gn: "grad (h' ! n) = grad (h ! n)" using IH[of n] first[of n] self0 by simp
  have dat: "\<forall>v. data (h' ! v) = data (h ! v)"
    using sg sg' by (simp add: same_graph_def)
  have "pushed ?c h' x = pushed ?c h x" by (rule pushed_cong[OF ok dat gn])
  then show ?case using IH[of x] first[of x] by (simp add: cl)
qed

text \<open>The reversed post-order has every node before its children.\<close>

lemma parents_first_rev:
  assumes "children_first h topo" "distinct topo"
  shows "parents_first h (rev topo)"
  using assms
proof (induction topo rule: rev_induct)
  case Nil
  show ?case by simp
next
  case (snoc v topo)
  have cf: "children_first h topo"
    unfolding children_first_def
  proof (intro allI impI)
    fix i assume i: "i < length topo"
    then have "prev (h ! ((topo @ [v]) ! i)) \<subseteq> set (take i (topo @ [v]))"
      using snoc.prems(1) unfolding children_first_def by simp
    then show "prev (h ! (topo ! i)) \<subseteq> set (take i topo)" using i by (simp add: nth_append)
  qed
  have pf: "parents_first h (rev topo)" using snoc.IH[OF cf] snoc.prems(2) by simp
  have kids: "prev (h ! m) \<subseteq> set topo" if "m \<in> set (topo @ [v])" for m
  proof -
    from that obtain i where i: "i < length (topo @ [v])" "(topo @ [v]) ! i = m"
      by (metis in_set_conv_nth)
    have "prev (h ! m) \<subseteq> set (take i (topo @ [v]))"
      using snoc.prems(1) i unfolding children_first_def by blast
    also have "\<dots> \<subseteq> set topo" using i(1) by (auto dest: in_set_takeD)
    finally show ?thesis .
  qed
  have "v \<notin> set topo" using snoc.prems(2) by simp
  then have "\<forall>m \<in> set (v # rev topo). v \<notin> prev (h ! m)" using kids by auto
  then show ?case using pf by simp
qed

lemma call_returns_cong:
  assumes "\<forall>v. data (h2 ! v) = data (h ! v)"
  shows "fst (call c h2) = fst (call c h)"
  using assms by (cases c) (auto simp: Let_def split: sum.splits)

lemma rule_returns_cong:
  assumes "same_graph h h2"
  shows "rule_returns h2 n = rule_returns h n"
proof -
  have d: "\<forall>v. data (h2 ! v) = data (h ! v)" using assms by (simp add: same_graph_def)
  have c: "backward_closure (h2 ! n) = backward_closure (h ! n)"
    using assms by (simp add: same_graph_def)
  show ?thesis unfolding rule_returns_def c call_returns_cong[OF d] ..
qed

lemma run_backward_returns:
  "\<forall>n \<in> set ns. rule_returns h n \<Longrightarrow> \<exists>h'. run_backward ns h = (Inr (), h')"
proof (induction ns arbitrary: h)
  case Nil
  show ?case by simp
next
  case (Cons n ns)
  obtain r h1 where c: "call (backward_closure (h ! n)) h = (r, h1)"
    by (cases "call (backward_closure (h ! n)) h")
  have "rule_returns h n" using Cons.prems by simp
  then have r: "r = Inr ()" using c by (simp add: rule_returns_def)
  have sg: "same_graph h h1" using same_graph_call[of h "backward_closure (h ! n)"] c by simp
  have "\<forall>m \<in> set ns. rule_returns h1 m"
    using Cons.prems rule_returns_cong[OF sg] by simp
  then obtain h' where "run_backward ns h1 = (Inr (), h')" using Cons.IH by blast
  then show ?case using c r by simp
qed

lemma set_grad_same_graph_returns:
  "rule_returns (h[y := (h ! y)\<lparr>grad := g\<rparr>]) n = rule_returns h n"
  by (rule rule_returns_cong[OF same_graph_set_grad])

text \<open>When the backward pass returns.\<close>

lemma backward_returns:
  assumes "well_formed h" "iter_ok iter" "y < length h" "fits h limit y"
    "\<forall>n \<in> reachable h y. rule_returns h n"
  shows "\<exists>h'. Value_backward iter limit y h = (Inr (), h')"
proof -
  obtain st where "build_topo iter h limit y ({}, []) = Inr st"
    using build_topo_fits[OF assms(1,2,3,4)] by blast
  then obtain visited topo where b: "build_topo iter h limit y ({}, []) = Inr (visited, topo)"
    by (cases st) auto
  have "set topo = reachable h y" using build_topo_correct[OF assms(1,2,3) b] by simp
  then have "\<forall>n \<in> set (rev topo). rule_returns (h[y := (h ! y)\<lparr>grad := 1\<rparr>]) n"
    using assms(5) by (simp add: set_grad_same_graph_returns)
  then obtain h' where "run_backward (rev topo) (h[y := (h ! y)\<lparr>grad := 1\<rparr>]) = (Inr (), h')"
    using run_backward_returns by blast
  then show ?thesis using b by (simp add: Value_backward_def)
qed

text \<open>The equation of the backward pass.\<close>

lemma backward_equation:
  assumes wf: "well_formed h" and it: "iter_ok iter" and y: "y < length h"
    and ret: "Value_backward iter limit y h = (Inr (), h')"
  shows "grad (h' ! x) = (if x = y then 1 else grad (h ! x)) +
           (\<Sum>n \<in> reachable h y. pushed (backward_closure (h ! n)) h' x)"
proof -
  let ?h1 = "h[y := (h ! y)\<lparr>grad := 1\<rparr>]"
  from ret obtain visited topo where
    b: "build_topo iter h limit y ({}, []) = Inr (visited, topo)"
    by (auto simp: Value_backward_def split: sum.splits)
  then have run: "run_backward (rev topo) ?h1 = (Inr (), h')"
    using ret by (simp add: Value_backward_def)
  note c = build_topo_correct[OF wf it y b]
  have sg: "same_graph h ?h1" by (rule same_graph_set_grad)
  have wf1: "well_formed ?h1" by (rule same_graph_well_formed[OF sg wf])
  have len: "\<forall>n \<in> set (rev topo). n < length ?h1"
    using c reachable_below[OF wf _ y] by auto
  have pf: "parents_first ?h1 (rev topo)"
    using same_graph_parents_first[OF sg parents_first_rev] c by simp
  have cl: "backward_closure (?h1 ! n) = backward_closure (h ! n)" for n
    using sg by (simp add: same_graph_def)
  have "grad (h' ! x) = grad (?h1 ! x) + (\<Sum>n \<leftarrow> rev topo. pushed (backward_closure (?h1 ! n)) h' x)"
    by (rule run_backward_pushed[OF wf1 len pf run])
  also have "(\<Sum>n \<leftarrow> rev topo. pushed (backward_closure (?h1 ! n)) h' x)
      = (\<Sum>n \<in> set (rev topo). pushed (backward_closure (h ! n)) h' x)"
    using c by (simp add: cl sum_list_distinct_conv_sum_set del: set_rev)
  also have "set (rev topo) = reachable h y" using c by simp
  also have "grad (?h1 ! x) = (if x = y then 1 else grad (h ! x))"
    using y by (simp add: nth_list_update)
  finally show ?thesis .
qed

lemma backward_same_graph:
  "Value_backward iter limit y h = (r, h') \<Longrightarrow> same_graph h h'"
  using same_graph_Value_backward[of h iter limit y] by simp

text \<open>Only the parents of a node push to it.\<close>

lemma pushes_from_parents:
  assumes "well_formed h" "y < length h" "finite P"
    "{n \<in> reachable h y. x \<in> prev (h ! n)} \<subseteq> P" "P \<subseteq> reachable h y"
  shows "(\<Sum>n \<in> reachable h y. pushed (backward_closure (h ! n)) h' x)
           = (\<Sum>n \<in> P. pushed (backward_closure (h ! n)) h' x)"
proof (rule sum.mono_neutral_right)
  have "reachable h y \<subseteq> {..y}" using reachable_below[OF assms(1) _ assms(2)] by auto
  then show "finite (reachable h y)" by (rule finite_subset) simp
  show "P \<subseteq> reachable h y" by (rule assms(5))
  show "\<forall>n \<in> reachable h y - P. pushed (backward_closure (h ! n)) h' x = 0"
  proof
    fix n assume n: "n \<in> reachable h y - P"
    then have "n < length h" using reachable_below[OF assms(1) _ assms(2)] by auto
    then have "closure_ok n (h ! n)" using assms(1) by (simp add: well_formed_def)
    moreover have "x \<notin> prev (h ! n)" using n assms(4) by auto
    ultimately show "pushed (backward_closure (h ! n)) h' x = 0" by (rule pushed_outside)
  qed
qed

lemma no_parents_no_change:
  assumes "well_formed h" "iter_ok iter" "y < length h"
    "Value_backward iter limit y h = (Inr (), h')"
    "\<forall>n \<in> reachable h y. x \<notin> prev (h ! n)"
  shows "grad (h' ! x) = (if x = y then 1 else grad (h ! x))"
proof -
  have "(\<Sum>n \<in> reachable h y. pushed (backward_closure (h ! n)) h' x)
           = (\<Sum>n \<in> {}. pushed (backward_closure (h ! n)) h' x)"
    using assms(5) by (intro pushes_from_parents[OF assms(1,3)]) auto
  then show ?thesis using backward_equation[OF assms(1,2,3,4), of x] by simp
qed

lemma root_grad_is_one:
  assumes "well_formed h" "iter_ok iter" "y < length h"
    "Value_backward iter limit y h = (Inr (), h')"
  shows "grad (h' ! y) = 1"
proof -
  have "y \<notin> prev (h ! n)" if "n \<in> reachable h y" for n
  proof
    assume "y \<in> prev (h ! n)"
    have n: "n \<le> y" "n < length h" using reachable_below[OF assms(1) that assms(3)] by auto
    have "y < n" by (rule well_formed_child[OF assms(1) n(2) \<open>y \<in> prev (h ! n)\<close>])
    with n(1) show False by simp
  qed
  then show ?thesis using no_parents_no_change[OF assms, of y] by simp
qed

lemma backward_unreachable:
  assumes "well_formed h" "iter_ok iter" "y < length h"
    "Value_backward iter limit y h = (Inr (), h')" "x \<notin> reachable h y"
  shows "h' ! x = h ! x"
proof -
  have "x \<notin> prev (h ! n)" if "n \<in> reachable h y" for n
    using reachable.child[OF that] assms(5) by blast
  moreover have "x \<noteq> y" using assms(5) reachable.root[of y h] by auto
  ultimately have "grad (h' ! x) = grad (h ! x)"
    using no_parents_no_change[OF assms(1,2,3,4), of x] by simp
  moreover have "same_graph h h'" by (rule backward_same_graph[OF assms(4)])
  ultimately show ?thesis by (intro Value.equality) (simp_all add: same_graph_def)
qed

text \<open>The traversal reads the children only.\<close>

lemma build_topo_prev_cong:
  assumes "\<forall>v. prev (h2 ! v) = prev (h ! v)"
  shows "build_topo iter h2 limit v st = build_topo iter h limit v st"
proof (induction limit arbitrary: v st)
  case 0
  show ?case by simp
next
  case (Suc limit)
  have "build_topo iter h2 limit = build_topo iter h limit" using Suc.IH by (intro ext)
  then show ?case using assms by (cases st) simp
qed

lemma zero_grad_length [simp]: "length (zero_grad ps h) = length h"
  by (induction ps arbitrary: h) simp_all

lemma zero_grad_nth:
  "i < length h \<Longrightarrow>
   zero_grad ps h ! i = (if i \<in> set ps then (h ! i)\<lparr>grad := 0\<rparr> else h ! i)"
proof (induction ps arbitrary: h)
  case Nil
  show ?case by simp
next
  case (Cons p ps)
  let ?h = "h[p := (h ! p)\<lparr>grad := 0\<rparr>]"
  have "zero_grad (p # ps) h ! i = (if i \<in> set ps then (?h ! i)\<lparr>grad := 0\<rparr> else ?h ! i)"
    using Cons.IH[of ?h] Cons.prems by simp
  then show ?case using Cons.prems by (cases "i = p") (simp_all add: nth_list_update)
qed

lemma one_parent:
  assumes "well_formed h" "iter_ok iter" "y < length h"
    "Value_backward iter limit y h = (Inr (), h')"
    "p \<in> reachable h y" "\<forall>n \<in> reachable h y. x \<in> prev (h ! n) \<longrightarrow> n = p" "x \<noteq> y"
  shows "grad (h' ! x) = grad (h ! x) + pushed (backward_closure (h ! p)) h' x"
proof -
  have "(\<Sum>n \<in> reachable h y. pushed (backward_closure (h ! n)) h' x)
           = (\<Sum>n \<in> {p}. pushed (backward_closure (h ! n)) h' x)"
    using assms(5,6) by (intro pushes_from_parents[OF assms(1,3)]) auto
  then show ?thesis using backward_equation[OF assms(1,2,3,4), of x] assms(7) by simp
qed

lemma backward_data:
  "Value_backward iter limit y h = (r, h') \<Longrightarrow> data (h' ! v) = data (h ! v)"
  using backward_same_graph[of iter limit y h r h'] by (simp add: same_graph_def)

lemma reachable_leaf: "prev (h ! v) = {} \<Longrightarrow> reachable h v = {v}"
  using reachable_unfold[of h v] by simp

lemma rule_returns_simple:
  "backward_closure (h ! n) = lambda_None \<Longrightarrow> rule_returns h n"
  "backward_closure (h ! n) = add_backward s t out \<Longrightarrow> rule_returns h n"
  "backward_closure (h ! n) = mul_backward s t out \<Longrightarrow> rule_returns h n"
  "backward_closure (h ! n) = exp_backward s out \<Longrightarrow> rule_returns h n"
  by (simp_all add: rule_returns_def Let_def)

lemma leaf_closure:
  assumes "well_formed h" "v < length h" "prev (h ! v) = {}"
  shows "backward_closure (h ! v) = lambda_None"
proof -
  have "closure_ok v (h ! v)" using assms(1,2) by (simp add: well_formed_def)
  then show ?thesis using assms(3)
    by (cases "backward_closure (h ! v)") (simp_all add: closure_ok_def)
qed












section \<open>Every operation keeps the heap well formed\<close>

lemma well_formed_as_Value:
  assumes "well_formed h" "operand_ok h other"
  shows "well_formed (snd (as_Value other h)) \<and>
         fst (as_Value other h) < length (snd (as_Value other h)) \<and>
         length h \<le> length (snd (as_Value other h))"
  using assms by (cases other) (simp_all add: Value_init_def well_formed_snoc closure_ok_def)

lemma well_formed_binary:
  assumes "well_formed h1" "self < length h1" "other < length h1"
    "f = add_backward self other (length h1) \<or> f = mul_backward self other (length h1)"
  shows "well_formed (set_backward (length h1) f
           (snd (Value_init d [self, other] opn h1)))"
  using assms
  by (auto simp: Value_init_def set_backward_last closure_ok_def intro!: well_formed_snoc)

lemma well_formed_Value_add:
  assumes "well_formed h" "self < length h" "operand_ok h other"
  shows "well_formed (snd (Value_add self other h))"
proof -
  obtain b h1 where a: "as_Value other h = (b, h1)" by (cases "as_Value other h")
  have 1: "well_formed h1" "b < length h1" "self < length h1"
    using well_formed_as_Value[OF assms(1,3)] a assms(2) by simp_all
  show ?thesis
    using well_formed_binary[OF 1(1,3,2), of "add_backward self b (length h1)"] a
    by (simp add: Value_add_def Value_init_def)
qed

lemma well_formed_Value_mul:
  assumes "well_formed h" "self < length h" "operand_ok h other"
  shows "well_formed (snd (Value_mul self other h))"
proof -
  obtain b h1 where a: "as_Value other h = (b, h1)" by (cases "as_Value other h")
  have 1: "well_formed h1" "b < length h1" "self < length h1"
    using well_formed_as_Value[OF assms(1,3)] a assms(2) by simp_all
  show ?thesis
    using well_formed_binary[OF 1(1,3,2), of "mul_backward self b (length h1)"] a
    by (simp add: Value_mul_def Value_init_def)
qed

lemma well_formed_unary:
  assumes "well_formed h" "self < length h"
    "f = pow_backward self p (length h) \<or> f = exp_backward self (length h) \<or>
     f = tanh_backward self (length h)"
  shows "well_formed (set_backward (length h) f (snd (Value_init d [self] opn h)))"
  using assms
  by (auto simp: Value_init_def set_backward_last closure_ok_def intro!: well_formed_snoc)

lemma well_formed_Value_pow:
  assumes "well_formed h" "self < length h"
  shows "well_formed (snd (Value_pow self other h))"
  using assms well_formed_unary[OF assms, of "pow_backward self p (length h)" p for p]
  by (auto simp: Value_pow_def Value_init_def split: operand.splits sum.splits)

lemma well_formed_Value_exp:
  assumes "well_formed h" "self < length h"
  shows "well_formed (snd (Value_exp self h))"
  using assms well_formed_unary[OF assms, of "exp_backward self (length h)"]
  by (auto simp: Value_exp_def Value_init_def split: sum.splits)

lemma well_formed_Value_tanh:
  assumes "well_formed h" "self < length h"
  shows "well_formed (snd (Value_tanh self h))"
  using assms well_formed_unary[OF assms, of "tanh_backward self (length h)"]
  by (auto simp: Value_tanh_def Value_init_def split: sum.splits)

lemma Value_mul_result:
  "self < length h \<Longrightarrow> operand_ok h other \<Longrightarrow>
   fst (Value_mul self other h) < length (snd (Value_mul self other h))"
  by (cases other) (simp_all add: Value_mul_Node Value_mul_Num)

lemma Value_pow_result:
  "Value_pow self other h = (Inr p, h1) \<Longrightarrow> p < length h1"
  by (auto simp: Value_pow_def Value_init_def set_backward_def split: operand.splits sum.splits)

lemma well_formed_Value_neg:
  "well_formed h \<Longrightarrow> self < length h \<Longrightarrow> well_formed (snd (Value_neg self h))"
  by (simp add: Value_neg_def well_formed_Value_mul)

lemma well_formed_Value_sub:
  assumes "well_formed h" "self < length h" "operand_ok h other"
  shows "well_formed (snd (Value_sub self other h))"
proof (cases other)
  case (Num x)
  then show ?thesis using assms by (simp add: Value_sub_def well_formed_Value_add)
next
  case (Node b)
  obtain n h1 where n: "Value_neg b h = (n, h1)" by (cases "Value_neg b h")
  have b: "b < length h" using assms(3) Node by simp
  have 1: "well_formed h1" using well_formed_Value_neg[OF assms(1) b] n by simp
  have 2: "n < length h1" using Value_mul_result[of b h "Num (- 1)"] b n
    by (simp add: Value_neg_def)
  have 3: "self < length h1"
    using extends_Value_neg[of h b] n assms(2) by (auto simp: extends_def)
  show ?thesis
    using well_formed_Value_add[OF 1 3, of "Node n"] 2 Node n by (simp add: Value_sub_def)
qed

lemma well_formed_Value_rsub:
  assumes "well_formed h" "self < length h"
  shows "well_formed (snd (Value_rsub self x h))"
proof -
  obtain n h1 where n: "Value_neg self h = (n, h1)" by (cases "Value_neg self h")
  have 1: "well_formed h1" using well_formed_Value_neg[OF assms] n by simp
  have 2: "n < length h1" using Value_mul_result[of self h "Num (- 1)"] assms(2) n
    by (simp add: Value_neg_def)
  show ?thesis
    using well_formed_Value_add[OF 1 2, of "Num x"] n
    by (simp add: Value_rsub_def Value_radd_def)
qed

lemma well_formed_Value_truediv:
  assumes "well_formed h" "self < length h" "operand_ok h other"
  shows "well_formed (snd (Value_truediv self other h))"
proof -
  obtain b h1 where a: "as_Value other h = (b, h1)" by (cases "as_Value other h")
  have 1: "well_formed h1" "b < length h1" "self < length h1"
    using well_formed_as_Value[OF assms(1,3)] a assms(2) by simp_all
  obtain r h2 where p: "Value_pow b (Num (- 1)) h1 = (r, h2)"
    by (cases "Value_pow b (Num (- 1)) h1")
  have 2: "well_formed h2" using well_formed_Value_pow[OF 1(1,2), of "Num (- 1)"] p by simp
  show ?thesis
  proof (cases r)
    case (Inl e)
    then show ?thesis using a p 2 by (simp add: Value_truediv_def)
  next
    case (Inr q)
    have q: "q < length h2" using Value_pow_result p Inr by blast
    have s: "self < length h2"
      using extends_Value_pow[of h1 b "Num (- 1)"] p 1(3) by (auto simp: extends_def)
    show ?thesis
      using well_formed_Value_mul[OF 2 s, of "Node q"] q a p Inr
      by (simp add: Value_truediv_def case_prod_beta)
  qed
qed

lemma well_formed_Value_rtruediv:
  assumes "well_formed h" "self < length h"
  shows "well_formed (snd (Value_rtruediv self x h))"
proof -
  obtain r h1 where p: "Value_pow self (Num (- 1)) h = (r, h1)"
    by (cases "Value_pow self (Num (- 1)) h")
  have 1: "well_formed h1" using well_formed_Value_pow[OF assms, of "Num (- 1)"] p by simp
  show ?thesis
  proof (cases r)
    case (Inl e)
    then show ?thesis using p 1 by (simp add: Value_rtruediv_def)
  next
    case (Inr q)
    have q: "q < length h1" using Value_pow_result p Inr by blast
    show ?thesis
      using well_formed_Value_mul[OF 1 q, of "Num x"] p Inr
      by (simp add: Value_rtruediv_def Value_rmul_def case_prod_beta)
  qed
qed

lemma well_formed_Value_backward:
  "well_formed h \<Longrightarrow> well_formed (snd (Value_backward iter limit y h))"
  using same_graph_well_formed[OF same_graph_Value_backward] by blast

lemma well_formed_zero_grad:
  "well_formed h \<Longrightarrow> well_formed (zero_grad ps h)"
  using same_graph_well_formed[OF same_graph_zero_grad] by blast


section \<open>Small graphs\<close>

lemma twins_cells:
  "twins = [\<lparr>data = 2, grad = 0, prev = {}, op = None, backward_closure = lambda_None\<rparr>,
            \<lparr>data = 2, grad = 0, prev = {}, op = None, backward_closure = lambda_None\<rparr>,
            \<lparr>data = 4, grad = 0, prev = {0, 1}, op = Some ''*'',
              backward_closure = mul_backward 0 1 2\<rparr>]"
  by (simp add: twins_def Value_mul_Node Value_init_eq)

lemma twins_well_formed: "well_formed twins"
  unfolding twins_def
  by (intro well_formed_mul_Node well_formed_Value_init well_formed_Nil)
     (simp_all add: Value_init_def)

lemma twins_topo:
  "build_topo by_address twins 2 2 ({}, []) = Inr ({0, 1, 2}, [0, 1, 2])"
  by (simp add: twins_cells numeral_2_eq_2 insert_commute by_address_def)

lemma twins_backward:
  "Value_backward by_address 2 2 twins = (Inr (), twins_after)"
  by (simp add: Value_backward_def twins_topo)
     (simp add: twins_cells twins_after_def add_grad_def numeral_2_eq_2)

lemma twins_reachable: "reachable twins 2 = {0, 1, 2}"
proof -
  have "2 < length twins" by (simp add: twins_cells)
  from build_topo_correct[OF twins_well_formed iter_ok_sorted this twins_topo]
  show ?thesis by simp
qed

lemma twins_after_topo:
  "build_topo by_address twins_after 2 2 ({}, []) = Inr ({0, 1, 2}, [0, 1, 2])"
  by (simp add: twins_after_def numeral_2_eq_2 insert_commute by_address_def)

lemma twins_after_backward:
  "Value_backward by_address 2 2 twins_after = (Inr (), twins_twice)"
  by (simp add: Value_backward_def twins_after_topo)
     (simp add: twins_after_def twins_twice_def add_grad_def numeral_2_eq_2)

lemma twins_twice_reset: "zero_grad [0, 1, 2] twins_twice = twins"
  by (simp add: twins_cells twins_twice_def numeral_2_eq_2)

lemma square_after_cells:
  "square_after =
     [\<lparr>data = 3, grad = 6, prev = {}, op = None, backward_closure = lambda_None\<rparr>,
      \<lparr>data = 9, grad = 1, prev = {0}, op = Some ''*'',
        backward_closure = mul_backward 0 0 1\<rparr>]"
  by (simp add: square_after_def Value_mul_Node Value_init_eq Value_backward_def
      numeral_2_eq_2 by_address_def add_grad_def)




section \<open>The claims on the operators and the traversal\<close>

text \<open>
  C10. A node-typed exponent makes \<^verbatim>\<open>__pow__\<close> fail at its assertion, before the
  output node is constructed: the call returns the error together with the heap it was
  given, so the base node's data, grad, children and backward rule are what they were and
  no node has been added.
\<close>

theorem pow_node_exponent_atomic:
  "Value_pow self (Node b) h = (Inl AssertionError, h)"
  by (simp add: Value_pow_def)




text \<open>
  C9. Every operator call (add, multiply, power, exp, tanh and the derived operators)
  leaves every cell that existed before the call as it was, data and grad included, whether
  it returns or raises; the backward pass and \<^verbatim>\<open>zero_grad\<close> write grad fields only, so
  no operation changes the data of an existing node.
\<close>

theorem operators_frame:
  assumes "v < length h"
  shows "snd (Value_add self other h) ! v = h ! v \<and>
         snd (Value_radd self other h) ! v = h ! v \<and>
         snd (Value_mul self other h) ! v = h ! v \<and>
         snd (Value_rmul self other h) ! v = h ! v \<and>
         snd (Value_neg self h) ! v = h ! v \<and>
         snd (Value_pow self other h) ! v = h ! v \<and>
         snd (Value_sub self other h) ! v = h ! v \<and>
         snd (Value_rsub self x h) ! v = h ! v \<and>
         snd (Value_truediv self other h) ! v = h ! v \<and>
         snd (Value_rtruediv self x h) ! v = h ! v \<and>
         snd (Value_exp self h) ! v = h ! v \<and>
         snd (Value_tanh self h) ! v = h ! v \<and>
         data (snd (Value_backward iter limit self h) ! v) = data (h ! v) \<and>
         data (zero_grad ps h ! v) = data (h ! v)"
  using assms same_graph_Value_backward[of h iter limit self] same_graph_zero_grad[of h ps]
  by (simp add: extends_nth extends_Value_add extends_Value_mul extends_Value_neg
      extends_Value_pow extends_Value_sub extends_Value_rsub extends_Value_truediv
      extends_Value_rtruediv extends_Value_exp extends_Value_tanh Value_radd_def Value_rmul_def
      same_graph_def)

theorem operators_frame_witness:
  "(0::nat) < length (snd (Value_init 2 [] None [])) \<and>
   snd (Value_add 0 (Node 0) (snd (Value_init 2 [] None []))) ! 0
     = snd (Value_init 2 [] None []) ! 0 \<and>
   snd (Value_truediv 0 (Num 4) (snd (Value_init 2 [] None []))) ! 0
     = snd (Value_init 2 [] None []) ! 0 \<and>
   snd (Value_tanh 0 (snd (Value_init 2 [] None []))) ! 0
     = snd (Value_init 2 [] None []) ! 0 \<and>
   data (snd (Value_backward by_address 1 0 (snd (Value_init 2 [] None []))) ! 0) = 2"
proof -
  have len: "(0::nat) < length (snd (Value_init 2 [] None []))" by (simp add: Value_init_def)
  have d: "data (snd (Value_init 2 [] None []) ! 0) = 2" by (simp add: Value_init_def)
  show ?thesis
    using len d
      operators_frame[OF len, of 0 "Node 0" 1 by_address 1 "[]"]
      operators_frame[OF len, of 0 "Num 4" 1 by_address 1 "[]"]
    by simp
qed




section \<open>The claims on the backward pass\<close>

text \<open>
  C4. On a well-formed heap (a finite acyclic graph), whenever \<^verbatim>\<open>y.backward()\<close>
  returns, the grad of \<open>y\<close> is 1, whatever it was before the call: the driver assigns
  it, and no rule of a reachable node pushes to the root.
\<close>

theorem backward_root_grad:
  assumes "well_formed h" "iter_ok iter" "y < length h"
    "Value_backward iter limit y h = (Inr (), h')"
  shows "grad (h' ! y) = 1"
proof -
  have "y \<notin> prev (h ! n)" if "n \<in> reachable h y" for n
  proof
    assume "y \<in> prev (h ! n)"
    have n: "n \<le> y" "n < length h" using reachable_below[OF assms(1) that assms(3)] by auto
    have "y < n" by (rule well_formed_child[OF assms(1) n(2) \<open>y \<in> prev (h ! n)\<close>])
    with n(1) show False by simp
  qed
  then show ?thesis using no_parents_no_change[OF assms, of y] by simp
qed

theorem backward_root_grad_witness:
  "Value_backward by_address 2 2 twins = (Inr (), twins_after) \<and>
   grad (twins_after ! 2) = 1"
proof -
  have len: "2 < length twins" by (simp add: twins_cells)
  show ?thesis
    using backward_root_grad[OF twins_well_formed iter_ok_sorted len twins_backward]
      twins_backward by simp
qed

text \<open>
  C6, as stated, fails on a graph whose leaves hold a grad from an earlier pass. After
  \<^verbatim>\<open>a = Value(2.0); b = Value(2.0); y = a * b; y.backward()\<close> the grads of
  \<open>a\<close>, \<open>b\<close>, \<open>y\<close> are 2, 2, 1. On that graph the first call of the
  round trip accumulates onto them and leaves 4, 4, 1; after the reset the second call
  leaves 2, 2, 1: the grad of \<open>a\<close> is 2 where the first call left 4.
\<close>

theorem reset_after_stale_grads:
  "Value_backward by_address 2 2 twins = (Inr (), twins_after) \<and>
   fst (Value_backward by_address 2 2 twins_after) = Inr () \<and>
   grad (snd (Value_backward by_address 2 2 twins_after) ! 0) = 4 \<and>
   fst (Value_backward by_address 2 2
          (zero_grad [0, 1, 2] (snd (Value_backward by_address 2 2 twins_after)))) = Inr () \<and>
   grad (snd (Value_backward by_address 2 2
          (zero_grad [0, 1, 2] (snd (Value_backward by_address 2 2 twins_after)))) ! 0) = 2"
proof -
  have r: "zero_grad [0, 1, 2] (snd (Value_backward by_address 2 2 twins_after)) = twins"
    unfolding twins_after_backward snd_conv by (rule twins_twice_reset)
  have a: "grad (snd (Value_backward by_address 2 2 twins_after) ! 0) = 4"
    unfolding twins_after_backward by (simp add: twins_twice_def)
  have b: "fst (Value_backward by_address 2 2 twins_after) = Inr ()"
    unfolding twins_after_backward by simp
  have c: "grad (twins_after ! 0) = 2" by (simp add: twins_after_def)
  show ?thesis unfolding r using a b c by (simp add: twins_backward)
qed

text \<open>
  C6, amended. On a well-formed heap, for a graph rooted at \<open>y\<close> in which every
  reachable node other than \<open>y\<close> has grad 0 before the first call (the state in which
  the operators build a graph, and in which a reset leaves it), calling
  \<^verbatim>\<open>y.backward()\<close>, setting the grad of every reachable node to 0 and calling
  \<^verbatim>\<open>y.backward()\<close> again returns the very heap that the first call returned: every
  node has the grad it had after the first call.
\<close>

theorem backward_reset_backward:
  assumes wf: "well_formed h" and it: "iter_ok iter" and y: "y < length h"
    and fresh: "\<forall>v \<in> reachable h y. v \<noteq> y \<longrightarrow> grad (h ! v) = 0"
    and first: "Value_backward iter limit y h = (Inr (), h1)"
    and ps: "set ps = reachable h y"
  shows "Value_backward iter limit y (zero_grad ps h1) = (Inr (), h1)"
proof -
  let ?hz = "zero_grad ps h1"
  have sg1: "same_graph h h1" by (rule backward_same_graph[OF first])
  have sgz: "same_graph h ?hz" by (rule same_graph_trans[OF sg1 same_graph_zero_grad])
  have len1: "length h1 = length h" using sg1 by (simp add: same_graph_def)
  have cell: "(?hz ! i)\<lparr>grad := g\<rparr> = (h ! i)\<lparr>grad := g\<rparr>" for i g
    using sgz by (intro Value.equality) (simp_all add: same_graph_def)
  have eq: "?hz[y := (?hz ! y)\<lparr>grad := 1\<rparr>] = h[y := (h ! y)\<lparr>grad := 1\<rparr>]"
  proof (rule nth_equalityI)
    show "length (?hz[y := (?hz ! y)\<lparr>grad := 1\<rparr>]) = length (h[y := (h ! y)\<lparr>grad := 1\<rparr>])"
      using len1 by simp
  next
    fix i assume "i < length (?hz[y := (?hz ! y)\<lparr>grad := 1\<rparr>])"
    then have i: "i < length h" using len1 by simp
    show "?hz[y := (?hz ! y)\<lparr>grad := 1\<rparr>] ! i = h[y := (h ! y)\<lparr>grad := 1\<rparr>] ! i"
    proof (cases "i = y")
      case True
      then show ?thesis using i len1 cell[where i = y and g = 1] by simp
    next
      case False
      show ?thesis
      proof (cases "i \<in> reachable h y")
        case True
        then have "grad (h ! i) = 0" using fresh False by simp
        then have "h ! i = (h ! i)\<lparr>grad := 0\<rparr>" by simp
        moreover have "?hz ! i = (h1 ! i)\<lparr>grad := 0\<rparr>"
          using True ps i len1 by (simp add: zero_grad_nth)
        moreover have "(h1 ! i)\<lparr>grad := 0\<rparr> = (h ! i)\<lparr>grad := 0\<rparr>"
          using sg1 by (intro Value.equality) (simp_all add: same_graph_def)
        ultimately show ?thesis using False by simp
      next
        case out: False
        then have "?hz ! i = h1 ! i" using ps i len1 by (simp add: zero_grad_nth)
        also have "\<dots> = h ! i" by (rule backward_unreachable[OF wf it y first out])
        finally show ?thesis using False by simp
      qed
    qed
  qed
  have "\<forall>v. prev (?hz ! v) = prev (h ! v)" using sgz by (simp add: same_graph_def)
  then have bt: "build_topo iter ?hz limit y ({}, []) = build_topo iter h limit y ({}, [])"
    by (rule build_topo_prev_cong)
  from first obtain visited topo where
    b: "build_topo iter h limit y ({}, []) = Inr (visited, topo)"
    by (auto simp: Value_backward_def split: sum.splits)
  show ?thesis using first b unfolding Value_backward_def bt eq by simp
qed

theorem backward_reset_backward_witness:
  "Value_backward by_address 2 2 twins = (Inr (), twins_after) \<and>
   Value_backward by_address 2 2 (zero_grad [0, 1, 2] twins_after)
     = (Inr (), twins_after)"
proof -
  have len: "2 < length twins" by (simp add: twins_cells)
  have fresh: "\<forall>v \<in> reachable twins 2. v \<noteq> 2 \<longrightarrow> grad (twins ! v) = 0"
    unfolding twins_reachable by (simp add: twins_cells)
  have ps: "set [0, 1, 2] = reachable twins 2" by (simp add: twins_reachable)
  show ?thesis
    using backward_reset_backward[OF twins_well_formed iter_ok_sorted len fresh twins_backward ps]
      twins_backward by simp
qed

section \<open>The claims on expressions\<close>

text \<open>
  C1. For leaves \<open>a\<close>, \<open>b\<close>, \<open>c\<close> constructed with data 2, -3 and 10, in any
  well-formed heap, the expression \<^verbatim>\<open>e = a*b + c\<close> has data 4, and
  \<^verbatim>\<open>e.backward()\<close> returns (three frames are enough, whatever the order in which the
  sets are iterated) and leaves \<open>a\<close> with grad -3, \<open>b\<close> with grad 2 and \<open>c\<close>
  with grad 1.
\<close>

theorem end_to_end:
  assumes "well_formed h0" "iter_ok iter" "3 \<le> limit"
    and "Value_init 2 [] None h0 = (a, h1)"
    and "Value_init (- 3) [] None h1 = (b, h2)"
    and "Value_init 10 [] None h2 = (c, h3)"
    and "Value_mul a (Node b) h3 = (m, h4)"
    and "Value_add m (Node c) h4 = (e, h5)"
  shows "data (h5 ! e) = 4 \<and>
         (\<exists>h6. Value_backward iter limit e h5 = (Inr (), h6) \<and>
               grad (h6 ! a) = - 3 \<and> grad (h6 ! b) = 2 \<and> grad (h6 ! c) = 1)"
proof -
  define A :: Value where
    "A = \<lparr>data = 2, grad = 0, prev = {}, op = None, backward_closure = lambda_None\<rparr>"
  define B :: Value where
    "B = \<lparr>data = - 3, grad = 0, prev = {}, op = None, backward_closure = lambda_None\<rparr>"
  define C :: Value where
    "C = \<lparr>data = 10, grad = 0, prev = {}, op = None, backward_closure = lambda_None\<rparr>"
  define M :: Value where
    "M = \<lparr>data = - 6, grad = 0, prev = {a, b}, op = Some ''*'',
          backward_closure = mul_backward a b m\<rparr>"
  define E :: Value where
    "E = \<lparr>data = 4, grad = 0, prev = {m, c}, op = Some ''+'',
          backward_closure = add_backward m c e\<rparr>"
  have a: "a = length h0" and h1: "h1 = h0 @ [A]"
    using assms(4) by (simp_all add: Value_init_eq A_def)
  have b: "b = length h0 + 1" and h2: "h2 = h0 @ [A, B]"
    using assms(5) by (simp_all add: Value_init_eq h1 B_def)
  have c: "c = length h0 + 2" and h3: "h3 = h0 @ [A, B, C]"
    using assms(6) by (auto simp: Value_init_eq h2 C_def)
  have m: "m = length h0 + 3" and h4: "h4 = h0 @ [A, B, C, M]"
    using assms(7) unfolding Value_mul_Node h3 M_def
    by (auto simp: a b A_def B_def nth_append)
  have e: "e = length h0 + 4" and h5: "h5 = h0 @ [A, B, C, M, E]"
    using assms(8) unfolding Value_add_Node h4 E_def
    by (auto simp: m c M_def C_def nth_append)
  have cells: "h5 ! a = A" "h5 ! b = B" "h5 ! c = C" "h5 ! m = M" "h5 ! e = E"
    unfolding h5 a b c m e by (simp_all add: nth_append)
  have ne: "a \<noteq> b" "a \<noteq> c" "a \<noteq> m" "a \<noteq> e" "b \<noteq> c" "b \<noteq> m" "b \<noteq> e"
    "c \<noteq> m" "c \<noteq> e" "m \<noteq> e"
    "b \<noteq> a" "c \<noteq> a" "m \<noteq> a" "e \<noteq> a" "c \<noteq> b" "m \<noteq> b" "e \<noteq> b"
    "m \<noteq> c" "e \<noteq> c" "e \<noteq> m"
    unfolding a b c m e by simp_all
  have y: "e < length h5" by (simp add: h5 e)
  have wf1: "well_formed h1" using well_formed_Value_init[OF assms(1), of 2 None] assms(4) by simp
  have wf2: "well_formed h2" using well_formed_Value_init[OF wf1, of "- 3" None] assms(5) by simp
  have wf3: "well_formed h3" using well_formed_Value_init[OF wf2, of 10 None] assms(6) by simp
  have wf4: "well_formed h4"
    using well_formed_mul_Node[OF wf3, of a b] assms(7) by (simp add: a b h3)
  have wf5: "well_formed h5"
    using well_formed_add_Node[OF wf4, of m c] assms(8) by (simp add: m c h4)
  have ra: "reachable h5 a = {a}" by (rule reachable_leaf) (simp add: cells A_def)
  have rb: "reachable h5 b = {b}" by (rule reachable_leaf) (simp add: cells B_def)
  have rc: "reachable h5 c = {c}" by (rule reachable_leaf) (simp add: cells C_def)
  have rm: "reachable h5 m = {m, a, b}"
    using reachable_unfold[of h5 m] by (auto simp: cells M_def ra rb)
  have re: "reachable h5 e = {e, m, a, b, c}"
    using reachable_unfold[of h5 e] by (auto simp: cells E_def rm rc)
  have "fits h5 (Suc (Suc (Suc 0))) e"
    by (simp add: cells E_def M_def A_def B_def C_def)
  moreover have "Suc (Suc (Suc 0)) \<le> limit" using assms(3) by simp
  ultimately have fit: "fits h5 limit e" by (rule fits_mono)
  have rr: "\<forall>v \<in> reachable h5 e. rule_returns h5 v"
    unfolding re
    by (auto simp: cells A_def B_def C_def M_def E_def intro: rule_returns_simple)
  obtain h6 where ret: "Value_backward iter limit e h5 = (Inr (), h6)"
    using backward_returns[OF wf5 assms(2) y fit rr] by blast
  have dat: "data (h6 ! v) = data (h5 ! v)" for v by (rule backward_data[OF ret])
  have ge: "grad (h6 ! e) = 1" by (rule root_grad_is_one[OF wf5 assms(2) y ret])
  have root_e: "e \<in> reachable h5 e" by (rule reachable.root)
  have m_in: "m \<in> reachable h5 e" by (simp add: re)
  have pm: "\<forall>v \<in> reachable h5 e. m \<in> prev (h5 ! v) \<longrightarrow> v = e"
    unfolding re by (simp add: cells A_def B_def C_def M_def E_def ne)
  have pc: "\<forall>v \<in> reachable h5 e. c \<in> prev (h5 ! v) \<longrightarrow> v = e"
    unfolding re by (simp add: cells A_def B_def C_def M_def E_def ne)
  have pa: "\<forall>v \<in> reachable h5 e. a \<in> prev (h5 ! v) \<longrightarrow> v = m"
    unfolding re by (simp add: cells A_def B_def C_def M_def E_def ne)
  have pb: "\<forall>v \<in> reachable h5 e. b \<in> prev (h5 ! v) \<longrightarrow> v = m"
    unfolding re by (simp add: cells A_def B_def C_def M_def E_def ne)
  have "grad (h6 ! m) = grad (h5 ! m) + pushed (backward_closure (h5 ! e)) h6 m"
    by (rule one_parent[OF wf5 assms(2) y ret root_e pm ne(10)])
  then have gm: "grad (h6 ! m) = 1" by (simp add: cells M_def E_def ge ne)
  have "grad (h6 ! c) = grad (h5 ! c) + pushed (backward_closure (h5 ! e)) h6 c"
    by (rule one_parent[OF wf5 assms(2) y ret root_e pc ne(9)])
  then have gc: "grad (h6 ! c) = 1" by (simp add: cells C_def E_def ge ne)
  have "grad (h6 ! a) = grad (h5 ! a) + pushed (backward_closure (h5 ! m)) h6 a"
    by (rule one_parent[OF wf5 assms(2) y ret m_in pa ne(4)])
  then have ga: "grad (h6 ! a) = - 3" by (simp add: cells A_def B_def M_def gm dat ne)
  have "grad (h6 ! b) = grad (h5 ! b) + pushed (backward_closure (h5 ! m)) h6 b"
    by (rule one_parent[OF wf5 assms(2) y ret m_in pb ne(7)])
  then have gb: "grad (h6 ! b) = 2" by (simp add: cells A_def B_def M_def gm dat ne)
  have "data (h5 ! e) = 4" by (simp add: cells E_def)
  then show ?thesis using ret ga gb gc by blast
qed

theorem end_to_end_witness:
  "\<exists>h6. Value_backward by_address 3 4
           (snd (Value_add 3 (Node 2) (snd (Value_mul 0 (Node 1)
              (snd (Value_init 10 [] None (snd (Value_init (- 3) [] None
                 (snd (Value_init 2 [] None []))))))))))
         = (Inr (), h6) \<and>
        grad (h6 ! 0) = - 3 \<and> grad (h6 ! 1) = 2 \<and> grad (h6 ! 2) = 1"
proof -
  let ?h1 = "snd (Value_init 2 [] None [])"
  let ?h2 = "snd (Value_init (- 3) [] None ?h1)"
  let ?h3 = "snd (Value_init 10 [] None ?h2)"
  let ?h4 = "snd (Value_mul 0 (Node 1) ?h3)"
  let ?h5 = "snd (Value_add 3 (Node 2) ?h4)"
  have 1: "Value_init 2 [] None [] = (0, ?h1)" by (simp add: Value_init_def)
  have 2: "Value_init (- 3) [] None ?h1 = (1, ?h2)" by (simp add: Value_init_def)
  have 3: "Value_init 10 [] None ?h2 = (2, ?h3)" by (simp add: Value_init_def)
  have 4: "Value_mul 0 (Node 1) ?h3 = (3, ?h4)" by (simp add: Value_mul_Node Value_init_def)
  have 5: "Value_add 3 (Node 2) ?h4 = (4, ?h5)"
    by (simp add: Value_add_Node Value_mul_Node Value_init_def)
  have l: "(3::nat) \<le> 3" by simp
  show ?thesis
    using end_to_end[OF well_formed_Nil iter_ok_sorted l 1 2 3 4 5] by blast
qed

text \<open>
  C2, as stated, fails for a leaf that holds a grad from an earlier pass: after
  \<^verbatim>\<open>x = Value(3.0); (x * x).backward()\<close> the grad of \<open>x\<close> is 6, and
  \<^verbatim>\<open>(x + x).backward()\<close> then leaves it at 8, not at 2.
\<close>

theorem shared_operand_stale_grad:
  "grad (square_after ! 0) = 6 \<and> prev (square_after ! 0) = {} \<and>
   fst (Value_backward by_address 2 2 (snd (Value_add 0 (Node 0) square_after))) = Inr () \<and>
   grad (snd (Value_backward by_address 2 2 (snd (Value_add 0 (Node 0) square_after))) ! 0) = 8"
  by (simp add: square_after_cells Value_add_Node Value_backward_def numeral_2_eq_2
      by_address_def add_grad_def)

text \<open>
  C2, amended. When a leaf \<open>x\<close> is both operands of a binary operator, the new node
  has the single child \<open>x\<close>, and the contributions of both operand positions
  accumulate onto the grad that \<open>x\<close> holds: \<^verbatim>\<open>(x + x).backward()\<close> returns and
  adds 2 to the grad of \<open>x\<close>, and \<^verbatim>\<open>(x * x).backward()\<close> returns and adds twice
  the data of \<open>x\<close>. For a leaf whose grad is 0 before the call, as the constructor
  leaves it, the grad is 2 and \<^verbatim>\<open>2 * x.data\<close> afterwards.
\<close>

theorem shared_operand_accumulates:
  assumes "well_formed h" "iter_ok iter" "x < length h" "prev (h ! x) = {}"
    and "2 \<le> limit"
    and "Value_add x (Node x) h = (s, hs)"
    and "Value_mul x (Node x) h = (q, hq)"
  shows "prev (hs ! s) = {x} \<and> prev (hq ! q) = {x} \<and>
         (\<exists>h'. Value_backward iter limit s hs = (Inr (), h') \<and>
               grad (h' ! x) = grad (h ! x) + 2) \<and>
         (\<exists>h'. Value_backward iter limit q hq = (Inr (), h') \<and>
               grad (h' ! x) = grad (h ! x) + 2 * data (h ! x))"
proof -
  have lim: "Suc (Suc 0) \<le> limit" using assms(5) by simp
  have leaf: "backward_closure (h ! x) = lambda_None"
    by (rule leaf_closure[OF assms(1,3,4)])
  define S :: Value where
    "S = \<lparr>data = data (h ! x) + data (h ! x), grad = 0, prev = {x}, op = Some ''+'',
          backward_closure = add_backward x x s\<rparr>"
  have s: "s = length h" and hs: "hs = h @ [S]"
    using assms(6) unfolding Value_add_Node S_def by auto
  have sx: "s \<noteq> x" "x \<noteq> s" using s assms(3) by auto
  have cs: "hs ! s = S" "hs ! x = h ! x" using assms(3) by (simp_all add: hs s nth_append)
  have ys: "s < length hs" by (simp add: hs s)
  have wfs: "well_formed hs"
    using well_formed_add_Node[OF assms(1,3,3)] assms(6) by simp
  have rxs: "reachable hs x = {x}" by (rule reachable_leaf) (simp add: cs assms(4))
  have rs: "reachable hs s = {s, x}"
    using reachable_unfold[of hs s] by (simp add: cs S_def rxs)
  have "fits hs (Suc (Suc 0)) s" by (simp add: cs S_def assms(4))
  then have fs: "fits hs limit s" using lim by (rule fits_mono)
  have rrs: "\<forall>v \<in> reachable hs s. rule_returns hs v"
    unfolding rs by (auto simp: cs S_def leaf intro: rule_returns_simple)
  obtain h1 where ret1: "Value_backward iter limit s hs = (Inr (), h1)"
    using backward_returns[OF wfs assms(2) ys fs rrs] by blast
  have g1: "grad (h1 ! s) = 1" by (rule root_grad_is_one[OF wfs assms(2) ys ret1])
  have p1: "\<forall>v \<in> reachable hs s. x \<in> prev (hs ! v) \<longrightarrow> v = s"
    unfolding rs by (simp add: cs assms(4))
  have "grad (h1 ! x) = grad (hs ! x) + pushed (backward_closure (hs ! s)) h1 x"
    by (rule one_parent[OF wfs assms(2) ys ret1 reachable.root p1 sx(2)])
  then have add: "grad (h1 ! x) = grad (h ! x) + 2" by (simp add: cs S_def g1)
  define Q :: Value where
    "Q = \<lparr>data = data (h ! x) * data (h ! x), grad = 0, prev = {x}, op = Some ''*'',
          backward_closure = mul_backward x x q\<rparr>"
  have q: "q = length h" and hq: "hq = h @ [Q]"
    using assms(7) unfolding Value_mul_Node Q_def by auto
  have qx: "q \<noteq> x" "x \<noteq> q" using q assms(3) by auto
  have cq: "hq ! q = Q" "hq ! x = h ! x" using assms(3) by (simp_all add: hq q nth_append)
  have yq: "q < length hq" by (simp add: hq q)
  have wfq: "well_formed hq"
    using well_formed_mul_Node[OF assms(1,3,3)] assms(7) by simp
  have rxq: "reachable hq x = {x}" by (rule reachable_leaf) (simp add: cq assms(4))
  have rq: "reachable hq q = {q, x}"
    using reachable_unfold[of hq q] by (simp add: cq Q_def rxq)
  have "fits hq (Suc (Suc 0)) q" by (simp add: cq Q_def assms(4))
  then have fq: "fits hq limit q" using lim by (rule fits_mono)
  have rrq: "\<forall>v \<in> reachable hq q. rule_returns hq v"
    unfolding rq by (auto simp: cq Q_def leaf intro: rule_returns_simple)
  obtain h2 where ret2: "Value_backward iter limit q hq = (Inr (), h2)"
    using backward_returns[OF wfq assms(2) yq fq rrq] by blast
  have g2: "grad (h2 ! q) = 1" by (rule root_grad_is_one[OF wfq assms(2) yq ret2])
  have d2: "data (h2 ! x) = data (h ! x)" using backward_data[OF ret2, of x] by (simp add: cq)
  have p2: "\<forall>v \<in> reachable hq q. x \<in> prev (hq ! v) \<longrightarrow> v = q"
    unfolding rq by (simp add: cq assms(4))
  have "grad (h2 ! x) = grad (hq ! x) + pushed (backward_closure (hq ! q)) h2 x"
    by (rule one_parent[OF wfq assms(2) yq ret2 reachable.root p2 qx(2)])
  then have mul: "grad (h2 ! x) = grad (h ! x) + 2 * data (h ! x)"
    by (simp add: cq Q_def g2 d2)
  have "prev (hs ! s) = {x}" "prev (hq ! q) = {x}" by (simp_all add: cs cq S_def Q_def)
  then show ?thesis using ret1 add ret2 mul by blast
qed

theorem shared_operand_accumulates_witness:
  "prev (snd (Value_add 0 (Node 0) (snd (Value_init 3 [] None []))) ! 1) = {0} \<and>
   (\<exists>h'. Value_backward by_address 2 1
            (snd (Value_add 0 (Node 0) (snd (Value_init 3 [] None [])))) = (Inr (), h') \<and>
         grad (h' ! 0) = 2) \<and>
   (\<exists>h'. Value_backward by_address 2 1
            (snd (Value_mul 0 (Node 0) (snd (Value_init 3 [] None [])))) = (Inr (), h') \<and>
         grad (h' ! 0) = 6)"
proof -
  let ?h = "snd (Value_init 3 [] None [])"
  have wf: "well_formed ?h" by (rule well_formed_Value_init[OF well_formed_Nil])
  have x: "0 < length ?h" "prev (?h ! 0) = {}" "grad (?h ! 0) = 0" "data (?h ! 0) = 3"
    by (simp_all add: Value_init_def)
  have l: "(2::nat) \<le> 2" by simp
  have a: "Value_add 0 (Node 0) ?h = (1, snd (Value_add 0 (Node 0) ?h))"
    by (simp add: Value_add_Node Value_init_def)
  have m: "Value_mul 0 (Node 0) ?h = (1, snd (Value_mul 0 (Node 0) ?h))"
    by (simp add: Value_mul_Node Value_init_def)
  show ?thesis
    using shared_operand_accumulates[OF wf iter_ok_sorted x(1,2) l a m] x(3,4) by simp
qed



text \<open>
  C8, as stated, fails: \<^verbatim>\<open>Value(1000.0).tanh()\<close> has no value, since
  \<^verbatim>\<open>math.exp(2000.0)\<close> raises \<^verbatim>\<open>OverflowError\<close>.
\<close>

theorem tanh_overflows:
  "fst (Value_tanh 0 (snd (Value_init 1000 [] None []))) = Inl OverflowError"
  using exp_2000_overflows by (simp add: Value_tanh_def Value_init_def math_exp_def)

text \<open>
  C8, amended. For every node \<open>a\<close> with \<^verbatim>\<open>exp(2 * a.data)\<close> within the range of a
  double, \<^verbatim>\<open>a.tanh()\<close> returns a new node \<open>out\<close> with the single child \<open>a\<close>;
  its data is the quotient \<^verbatim>\<open>(e - 1) / (e + 1)\<close> of the code for
  \<^verbatim>\<open>e = exp(2 * a.data)\<close> and lies between -1 and 1, the bounds included; whenever
  its backward rule is called later, it returns and adds
  \<^verbatim>\<open>(1 - out.data**2) * out.grad\<close> to the grad of \<open>a\<close>, where \<^verbatim>\<open>out.data\<close> is
  the value of the new node. The bounds are included because the doubles of the code reach
  them; a bound that only the quotient of the reals keeps is not stated.
\<close>

theorem tanh_value_and_rule:
  assumes "a < length h" "exp (2 * data (h ! a)) \<le> float_max"
  shows "\<exists>out h1. Value_tanh a h = (Inr out, h1) \<and> out = length h \<and>
           h1 = h @ [\<lparr>data = (exp (2 * data (h ! a)) - 1) / (exp (2 * data (h ! a)) + 1),
                       grad = 0, prev = {a}, op = Some ''tanh'',
                       backward_closure = tanh_backward a out\<rparr>] \<and>
           - 1 \<le> data (h1 ! out) \<and> data (h1 ! out) \<le> 1 \<and>
           (\<forall>h2. same_graph h1 h2 \<longrightarrow>
              fst (call (backward_closure (h2 ! out)) h2) = Inr () \<and>
              grad (snd (call (backward_closure (h2 ! out)) h2) ! a)
                = grad (h2 ! a) + (1 - (data (h2 ! out))\<^sup>2) * grad (h2 ! out))"
proof -
  let ?e = "exp (2 * data (h ! a))"
  let ?t = "(?e - 1) / (?e + 1)"
  let ?out = "length h"
  let ?h1 = "h @ [\<lparr>data = ?t, grad = 0, prev = {a}, op = Some ''tanh'',
                    backward_closure = tanh_backward a ?out\<rparr>]"
  have pos: "?e + 1 \<noteq> 0" using exp_gt_zero[of "2 * data (h ! a)"] by linarith
  have run: "Value_tanh a h = (Inr ?out, ?h1)"
    using assms(2) pos
    by (simp add: Value_tanh_def math_exp_def py_truediv_def Value_init_def set_backward_last)
  have b: "- 1 \<le> ?t" "?t \<le> 1" by (rule tanh_quotient_bounds, simp)+
  have rule: "fst (call (backward_closure (h2 ! ?out)) h2) = Inr () \<and>
              grad (snd (call (backward_closure (h2 ! ?out)) h2) ! a)
                = grad (h2 ! a) + (1 - (data (h2 ! ?out))\<^sup>2) * grad (h2 ! ?out)"
    if sg: "same_graph ?h1 h2" for h2
  proof -
    have c: "backward_closure (h2 ! ?out) = tanh_backward a ?out"
      and d: "data (h2 ! ?out) = ?t" and l: "a < length h2"
      using sg assms(1) by (simp_all add: same_graph_def)
    have "\<bar>?t\<bar> \<le> 1" using b by simp
    then have "py_pow (data (h2 ! ?out)) 2 = Inr ((data (h2 ! ?out))\<^sup>2)"
      unfolding d by (rule py_pow_square_unit)
    then show ?thesis using l by (simp add: c add_grad_grad)
  qed
  show ?thesis
    by (intro exI[of _ ?out] exI[of _ ?h1] conjI allI impI run)
       (simp_all add: b rule)
qed

theorem tanh_value_and_rule_witness:
  "\<exists>out h1. Value_tanh 0 (snd (Value_init 0 [] None [])) = (Inr out, h1) \<and> out = 1 \<and>
     data (h1 ! out) = 0 \<and> - 1 \<le> data (h1 ! out) \<and> data (h1 ! out) \<le> 1 \<and>
     fst (call (backward_closure (h1 ! out)) (h1[out := (h1 ! out)\<lparr>grad := 1\<rparr>])) = Inr () \<and>
     grad (snd (call (backward_closure (h1 ! out)) (h1[out := (h1 ! out)\<lparr>grad := 1\<rparr>])) ! 0) = 1"
proof -
  let ?h = "snd (Value_init 0 [] None [])"
  have a: "0 < length ?h" by (simp add: Value_init_def)
  have d: "data (?h ! 0) = 0" by (simp add: Value_init_def)
  have r: "exp (2 * data (?h ! 0)) \<le> float_max" unfolding d using float_max_ge_one by simp
  have l: "length ?h = 1" by (simp add: Value_init_def)
  obtain out h1 where t: "Value_tanh 0 ?h = (Inr out, h1)" "out = 1"
    "h1 = ?h @ [\<lparr>data = 0, grad = 0, prev = {0}, op = Some ''tanh'',
                 backward_closure = tanh_backward 0 out\<rparr>]"
    "- 1 \<le> data (h1 ! out)" "data (h1 ! out) \<le> 1"
    and rule: "\<And>h2. same_graph h1 h2 \<Longrightarrow>
              fst (call (backward_closure (h2 ! out)) h2) = Inr () \<and>
              grad (snd (call (backward_closure (h2 ! out)) h2) ! 0)
                = grad (h2 ! 0) + (1 - (data (h2 ! out))\<^sup>2) * grad (h2 ! out)"
    using tanh_value_and_rule[OF a r] unfolding d l by auto
  let ?h2 = "h1[out := (h1 ! out)\<lparr>grad := 1\<rparr>]"
  have sg: "same_graph h1 ?h2" by (rule same_graph_set_grad)
  have v: "data (h1 ! out) = 0" "out < length h1" "grad (?h2 ! 0) = 0"
    using t(2,3) by (simp_all add: Value_init_def)
  have cl: "backward_closure (?h2 ! out) = backward_closure (h1 ! out)"
    "data (?h2 ! out) = 0" "grad (?h2 ! out) = 1"
    using v by simp_all
  show ?thesis using t(1,2,4,5) v rule[OF sg] unfolding cl by simp
qed


end
